theory Spec2Isabelle
  imports Main "HOL-Library.Word"
begin

unbundle bit_operations_syntax

section \<open>The reader side of the shared log buffer, and the level table\<close>

text \<open>
  The development embeds \<^verbatim>\<open>pl_funcs.c\<close> together with the declarations of
  \<^verbatim>\<open>pg_logging.h\<close>. Machine integers are words: \<^verbatim>\<open>uint32\<close> and
  \<^verbatim>\<open>int\<close> are both \<open>32 word\<close> (read with \<open>unat\<close> and \<open>sint\<close>
  respectively), \<^verbatim>\<open>size_t\<close> is \<open>64 word\<close> (an LP64 platform), a byte is
  \<open>8 word\<close>.
\<close>

type_synonym uint32 = "32 word"
type_synonym int32 = "32 word"
type_synonym size_t = "64 word"
type_synonym byte = "8 word"

subsection \<open>The level table\<close>

text \<open>
  \<^verbatim>\<open>struct ErrorLevel { char *text; int code; }\<close>. A \<^verbatim>\<open>NULL\<close> text pointer is
  \<open>None\<close>.
\<close>

record ErrorLevel =
  text' :: "string option"
  code :: int32

text \<open>
  \<^verbatim>\<open>extern struct ErrorLevel errlevel_wordlist[]\<close> is only declared in the header; its
  contents live in a generated file that is not part of the sources at hand. The table is
  therefore a parameter \<open>wl\<close> of every function that reads it: an array, indexed from 0.
\<close>

type_synonym wordlist = "nat \<Rightarrow> ErrorLevel"

text \<open>The three \<^verbatim>\<open>elog(ERROR, ...)\<close> calls of the level functions, by their messages.\<close>

datatype elog_error =
    Empty_status_name
  | Unknown_level_name string
  | Invalid_error_level_name

definition MAX_HASH_VALUE :: nat where
  "MAX_HASH_VALUE = 21"

text \<open>
  \<^verbatim>\<open>get_errlevel_name\<close>: the \<^verbatim>\<open>for\<close> loop over \<open>i = 0 .. 21\<close>, returning the text
  of the first entry that has a text and carries the code; falling out of the loop raises.
\<close>

function get_errlevel_name_from :: "wordlist \<Rightarrow> int32 \<Rightarrow> nat \<Rightarrow> elog_error + string" where
  "get_errlevel_name_from wl c i =
     (if i \<le> MAX_HASH_VALUE then
        (let el = wl i in
         if text' el \<noteq> None \<and> code el = c then Inr (the (text' el))
         else get_errlevel_name_from wl c (i + 1))
      else Inl Invalid_error_level_name)"
  by pat_completeness auto
termination
  by (relation "measure (\<lambda>(wl, c, i). Suc MAX_HASH_VALUE - i)") auto

definition get_errlevel_name :: "wordlist \<Rightarrow> int32 \<Rightarrow> elog_error + string" where
  "get_errlevel_name wl c = get_errlevel_name_from wl c 0"

definition errlevel_out :: "wordlist \<Rightarrow> int32 \<Rightarrow> elog_error + string" where
  "errlevel_out wl c = get_errlevel_name wl c"

text \<open>
  Modelled from the spec: \<^verbatim>\<open>get_errlevel\<close>, the generated lookup function, is declared
  in the header and called by \<^verbatim>\<open>errlevel_in\<close>, but its body is missing. The
  specification describes it as a case-sensitive exact match of the name against the
  entries of the table, yielding no entry when none matches. The entries are the slots
  \<open>0 .. MAX_HASH_VALUE\<close> that \<^verbatim>\<open>get_errlevel_name\<close> scans.
\<close>

definition get_errlevel :: "wordlist \<Rightarrow> string \<Rightarrow> nat \<Rightarrow> ErrorLevel option" where
  "get_errlevel wl str len =
     find (\<lambda>el. text' el = Some str) (map wl [0 ..< Suc MAX_HASH_VALUE])"

text \<open>
  \<^verbatim>\<open>errlevel_in\<close>. A C string holds no NUL, so \<^verbatim>\<open>strlen\<close> is the length of the
  \<open>string\<close>.
\<close>

definition errlevel_in :: "wordlist \<Rightarrow> string \<Rightarrow> elog_error + int32" where
  "errlevel_in wl str =
     (let len = length str in
      if len = 0 then Inl Empty_status_name
      else (case get_errlevel wl str len of
              None \<Rightarrow> Inl (Unknown_level_name str)
            | Some el \<Rightarrow> Inr (code el)))"

text \<open>Names the table registers: the texts of its slots \<open>0 .. MAX_HASH_VALUE\<close>.\<close>

definition registered :: "wordlist \<Rightarrow> string \<Rightarrow> bool" where
  "registered wl n = (\<exists>i \<in> {0 .. MAX_HASH_VALUE}. text' (wl i) = Some n)"

text \<open>Codes the table registers: the codes of its named slots.\<close>

definition registered_code :: "wordlist \<Rightarrow> int32 \<Rightarrow> bool" where
  "registered_code wl c = (\<exists>i \<in> {0 .. MAX_HASH_VALUE}. text' (wl i) \<noteq> None \<and> code (wl i) = c)"

text \<open>
  Modelled from the spec: the contents of \<^verbatim>\<open>errlevel_wordlist\<close> are missing. The
  specification calls the table a static mapping between level names and level codes for a
  closed set of levels, looked up in both directions. Accordingly a table is a registry
  when no slot is named by the empty string and no two named slots carry the same code.
\<close>

definition registry :: "wordlist \<Rightarrow> bool" where
  "registry wl =
     ((\<forall>i \<in> {0 .. MAX_HASH_VALUE}. text' (wl i) \<noteq> Some []) \<and>
      (\<forall>i \<in> {0 .. MAX_HASH_VALUE}. \<forall>j \<in> {0 .. MAX_HASH_VALUE}.
         text' (wl i) \<noteq> None \<and> text' (wl j) \<noteq> None \<and> code (wl i) = code (wl j) \<longrightarrow> i = j))"

text \<open>A small table for concrete evaluation: three named slots, the rest empty.\<close>

definition sample_wordlist :: wordlist where
  "sample_wordlist i =
     (if i = 3 then \<lparr>text' = Some ''log'', code = 15\<rparr>
      else if i = 5 then \<lparr>text' = Some ''error'', code = 20\<rparr>
      else if i = 21 then \<lparr>text' = Some ''panic'', code = 22\<rparr>
      else \<lparr>text' = None, code = 0\<rparr>)"

subsection \<open>The shared ring buffer\<close>

text \<open>
  \<^verbatim>\<open>LoggingShmemHdr\<close>. The arena \<^verbatim>\<open>char *data\<close> is the list of its bytes; the
  light-weight lock is held exclusively (\<open>True\<close>) or free.
\<close>

record LoggingShmemHdr =
  data :: "byte list"
  endpos :: uint32
  readpos :: uint32
  buffer_size :: int32
  hdr_lock :: bool
  wraparound :: bool

text \<open>
  The fixed part of \<^verbatim>\<open>CollectedItem\<close>, with \<^verbatim>\<open>CHECK_DATA\<close> defined as the header
  does. On the platform modelled (LP64, little-endian, \<^verbatim>\<open>int\<close> of four bytes aligned
  to four) the fields sit at offsets 0, 4, 8, 12, 16, 20 and 24, and
  \<^verbatim>\<open>ITEM_HDR_LEN = offsetof(CollectedItem, data)\<close> is 28.
\<close>

record CollectedItem =
  magic :: int32
  totallen :: int32
  saved_errno :: int32
  elevel :: byte
  message_len :: int32
  detail_len :: int32
  hint_len :: int32

definition ITEM_HDR_LEN :: nat where
  "ITEM_HDR_LEN = 28"

definition PG_ITEM_MAGIC :: int32 where
  "PG_ITEM_MAGIC = 0x06054AB5"

text \<open>A four-byte little-endian load, and the fields of a header lying at the front of a buffer.\<close>

definition le32 :: "byte list \<Rightarrow> nat \<Rightarrow> 32 word" where
  "le32 bs off = foldr (\<lambda>b w. ucast b + 256 * w) (take 4 (drop off bs)) 0"

definition item_fields :: "byte list \<Rightarrow> CollectedItem" where
  "item_fields item =
     \<lparr>magic = le32 item 0,
      totallen = le32 item 4,
      saved_errno = le32 item 8,
      elevel = item ! 12,
      message_len = le32 item 16,
      detail_len = le32 item 20,
      hint_len = le32 item 24\<rparr>"

text \<open>
  The per-session context \<^verbatim>\<open>logged_data_ctx\<close> of the set-returning function. Its
  \<open>wraparound\<close> is the session's own flag, distinct from the one in the shared header
  (written \<open>LoggingShmemHdr.wraparound\<close> below).
\<close>

record logged_data_ctx =
  until :: uint32
  startpos :: uint32
  wraparound :: bool

text \<open>One output row: the six attributes of the view, texts as their bytes.\<close>

record logged_row =
  level :: int32
  errno :: int32
  message :: "byte list"
  detail :: "byte list option"
  hint :: "byte list option"
  position :: int32

text \<open>
  What ends a call abnormally. \<^verbatim>\<open>palloc0\<close> raises "invalid memory alloc request size"
  for a request above \<^verbatim>\<open>MaxAllocSize\<close>; a copy or a string read that leaves the object
  it addresses has no defined behaviour in C and is a fault of the model.
\<close>

datatype fault = Invalid_alloc_size | Out_of_bounds

definition MaxAllocSize :: size_t where
  "MaxAllocSize = 0x3fffffff"

definition palloc0 :: "size_t \<Rightarrow> fault + byte list" where
  "palloc0 sz =
     (if sz \<le> MaxAllocSize then Inr (replicate (unat sz) 0) else Inl Invalid_alloc_size)"

text \<open>
  \<^verbatim>\<open>memcpy(dst + d, src + s, n)\<close> on two buffers: the destination with \<open>n\<close> bytes
  replaced.
\<close>

definition memcpy :: "byte list \<Rightarrow> nat \<Rightarrow> byte list \<Rightarrow> nat \<Rightarrow> nat \<Rightarrow> fault + byte list" where
  "memcpy dst d src s n =
     (if d + n \<le> length dst \<and> s + n \<le> length src
      then Inr (take d dst @ take n (drop s src) @ drop (d + n) dst)
      else Inl Out_of_bounds)"

text \<open>Reading \<^verbatim>\<open>item->totallen\<close> through a pointer into the arena, at byte \<open>off\<close>.\<close>

definition load_totallen :: "byte list \<Rightarrow> nat \<Rightarrow> fault + int32" where
  "load_totallen bs off =
     (if off + 8 \<le> length bs then Inr (le32 bs (off + 4)) else Inl Out_of_bounds)"

text \<open>
  \<^verbatim>\<open>CStringGetTextDatum(p)\<close> for \<open>p\<close> pointing \<open>off\<close> bytes into the block \<open>bs\<close>:
  the bytes up to the first NUL. The pointer must stand inside the block and the NUL must
  exist inside the block; a read that leaves the block is a fault.
\<close>

definition cstring_at :: "byte list \<Rightarrow> int \<Rightarrow> fault + byte list" where
  "cstring_at bs off =
     (if 0 \<le> off \<and> 0 \<in> set (drop (nat off) bs)
      then Inr (takeWhile (\<lambda>b. b \<noteq> 0) (drop (nat off) bs))
      else Inl Out_of_bounds)"

text \<open>
  The lock, as one process sees it: taking a lock that is held does not return (nobody
  lets go of it during a call of the model), releasing it sets it free.
\<close>

definition LWLockAcquire :: "LoggingShmemHdr \<Rightarrow> LoggingShmemHdr option" where
  "LWLockAcquire h = (if hdr_lock h then None else Some (h\<lparr>hdr_lock := True\<rparr>))"

definition LWLockRelease :: "LoggingShmemHdr \<Rightarrow> LoggingShmemHdr" where
  "LWLockRelease h = h\<lparr>hdr_lock := False\<rparr>"

subsection \<open>Reset\<close>

text \<open>
  \<^verbatim>\<open>pg_atomic_compare_exchange_u32(ptr, expected, newval)\<close> on the value of the cell:
  success flag, new value of the cell, new value of \<^verbatim>\<open>*expected\<close>.
\<close>

definition pg_atomic_compare_exchange_u32 :: "uint32 \<Rightarrow> uint32 \<Rightarrow> uint32 \<Rightarrow> bool \<times> uint32 \<times> uint32" where
  "pg_atomic_compare_exchange_u32 cell expected newval =
     (if cell = expected then (True, newval, expected) else (False, cell, cell))"

text \<open>
  Producers advance \<^verbatim>\<open>endpos\<close> without the lock. Their effect on one run of
  \<^verbatim>\<open>reset_counters_in_shmem\<close> is a schedule: its \<open>k\<close>-th element says what happened to
  the cell between the previous read of it and the \<open>k\<close>-th compare-and-swap (\<open>Some v\<close>:
  a producer stored \<open>v\<close>). Once the schedule is used up the producers are quiet. The
  \<^verbatim>\<open>while (true)\<close> loop, run to the swap that succeeds, gives the value of the cell
  then:
\<close>

type_synonym interference = "uint32 option list"

definition interfere :: "interference \<Rightarrow> uint32 \<Rightarrow> uint32" where
  "interfere env cell = (case env of Some v # _ \<Rightarrow> v | _ \<Rightarrow> cell)"

function cas_loop :: "interference \<Rightarrow> uint32 \<Rightarrow> uint32 \<Rightarrow> uint32" where
  "cas_loop env cell curpos =
     (case pg_atomic_compare_exchange_u32 (interfere env cell) curpos 0 of
        (ok, cell', curpos') \<Rightarrow> if ok then cell' else cas_loop (tl env) cell' curpos')"
  by pat_completeness auto
termination
proof (relation "measure (\<lambda>(env, cell, curpos). 2 * length env + (if cell = curpos then 0 else 1))")
  show "wf (measure (\<lambda>(env, cell, curpos). 2 * length env + (if cell = curpos then 0 else 1)))"
    by simp
next
  fix env :: interference and cell curpos cell' curpos' :: uint32 and ok :: bool
    and x2 :: "uint32 \<times> uint32"
  assume "(ok, x2) = pg_atomic_compare_exchange_u32 (interfere env cell) curpos 0"
    and "(cell', curpos') = x2" and "\<not> ok"
  then have "cell' = curpos'" and "env = [] \<longrightarrow> cell \<noteq> curpos"
    by (auto simp: pg_atomic_compare_exchange_u32_def interfere_def split: if_splits)
  then show "((tl env, cell', curpos'), env, cell, curpos)
      \<in> measure (\<lambda>(env, cell, curpos). 2 * length env + (if cell = curpos then 0 else 1))"
    by (cases env) auto
qed

definition reset_counters_in_shmem :: "interference \<Rightarrow> LoggingShmemHdr \<Rightarrow> LoggingShmemHdr option" where
  "reset_counters_in_shmem env h =
     (let curpos = endpos h in
      case LWLockAcquire h of
        None \<Rightarrow> None
      | Some h1 \<Rightarrow>
          (let h2 = h1\<lparr>endpos := cas_loop env (endpos h1) curpos\<rparr>;
               h3 = h2\<lparr>readpos := 0\<rparr>
           in Some (LWLockRelease h3)))"

definition flush_logged_data :: "interference \<Rightarrow> LoggingShmemHdr \<Rightarrow> LoggingShmemHdr option" where
  "flush_logged_data env h = reset_counters_in_shmem env h"

subsection \<open>Drain: \<^verbatim>\<open>get_logged_data\<close>\<close>

text \<open>The condition of the \<^verbatim>\<open>while\<close> loop, on \<^verbatim>\<open>uint32\<close> values.\<close>

definition loop_cond :: "LoggingShmemHdr \<Rightarrow> logged_data_ctx \<Rightarrow> bool" where
  "loop_cond h c =
     ((\<not> wraparound c \<and> readpos h < until c) \<or> (wraparound c \<and> readpos h > until c))"

text \<open>
  \<^verbatim>\<open>hdr->readpos + ITEM_HDR_LEN > hdr->buffer_size\<close>: the sum is a \<^verbatim>\<open>size_t\<close>, and so
  the \<^verbatim>\<open>int\<close> on the right is converted to \<^verbatim>\<open>size_t\<close> (sign-extended).
\<close>

definition no_room_for_header :: "LoggingShmemHdr \<Rightarrow> bool" where
  "no_room_for_header h =
     ((scast (buffer_size h) :: size_t) < ucast (readpos h) + of_nat ITEM_HDR_LEN)"

text \<open>
  \<^verbatim>\<open>hdr->readpos + item->totallen >= hdr->buffer_size\<close>: all three operands meet as
  \<^verbatim>\<open>unsigned int\<close>.
\<close>

definition two_parts :: "LoggingShmemHdr \<Rightarrow> int32 \<Rightarrow> bool" where
  "two_parts h len = (buffer_size h \<le> readpos h + len)"

text \<open>
  \<^verbatim>\<open>int taillen = hdr->buffer_size - hdr->readpos - ITEM_HDR_LEN\<close>: an unsigned
  subtraction, widened to \<^verbatim>\<open>size_t\<close> for the second one, and cut back to \<^verbatim>\<open>int\<close>.
\<close>

definition taillen_of :: "LoggingShmemHdr \<Rightarrow> int32" where
  "taillen_of h = ucast ((ucast (buffer_size h - readpos h) :: size_t) - of_nat ITEM_HDR_LEN)"

text \<open>
  Lines 132 to 160 of \<^verbatim>\<open>get_logged_data\<close>: allocate a block of \<^verbatim>\<open>totallen\<close> bytes
  as the arena announces it, copy the header, then the payload in one or two parts, and
  advance \<^verbatim>\<open>readpos\<close>. The result is the block, the shared header and the context.
  \<^verbatim>\<open>AssertPointerAlignment\<close> expands to nothing unless assertions are compiled in and
  is left out.
\<close>

definition copy_item ::
  "LoggingShmemHdr \<Rightarrow> logged_data_ctx \<Rightarrow> fault + (byte list \<times> LoggingShmemHdr \<times> logged_data_ctx)" where
  "copy_item h c =
     (let pos = unat (readpos h) in
      case load_totallen (data h) pos of Inl e \<Rightarrow> Inl e | Inr len0 \<Rightarrow>
      case palloc0 (scast len0) of Inl e \<Rightarrow> Inl e | Inr item0 \<Rightarrow>
      case memcpy item0 0 (data h) pos ITEM_HDR_LEN of Inl e \<Rightarrow> Inl e | Inr item1 \<Rightarrow>
      let len = totallen (item_fields item1) in
      if two_parts h len then
        (let taillen = taillen_of h in
         case memcpy item1 ITEM_HDR_LEN (data h) (pos + ITEM_HDR_LEN) (unat (scast taillen :: size_t)) of
           Inl e \<Rightarrow> Inl e
         | Inr item2 \<Rightarrow>
             (let c' = c\<lparr>wraparound := False\<rparr>;
                  h1 = h\<lparr>readpos := readpos h + len\<rparr>;
                  h2 = h1\<lparr>readpos := readpos h1 - buffer_size h1\<rparr>
              in case memcpy item2 (ITEM_HDR_LEN + nat (sint taillen)) (data h2) 0 (unat (readpos h2)) of
                   Inl e \<Rightarrow> Inl e
                 | Inr item3 \<Rightarrow> Inr (item3, h2, c')))
      else
        (case memcpy item1 ITEM_HDR_LEN (data h) (pos + ITEM_HDR_LEN)
                (unat ((scast len :: size_t) - of_nat ITEM_HDR_LEN)) of
           Inl e \<Rightarrow> Inl e
         | Inr item2 \<Rightarrow> Inr (item2, h\<lparr>readpos := readpos h + len\<rparr>, c)))"

text \<open>
  Lines 162 to 187: the values of the row. The pointer \<^verbatim>\<open>data\<close> walks the block that
  was allocated: it starts at \<^verbatim>\<open>item->data\<close>, \<^verbatim>\<open>ITEM_HDR_LEN\<close> bytes into the block,
  where the message is read; it moves on by \<^verbatim>\<open>message_len\<close>, where the detail is read
  when its length is not 0; and then by \<^verbatim>\<open>detail_len\<close>, where the hint is read when its
  length is not 0. Both lengths are \<^verbatim>\<open>int\<close> and may be negative: the pointer then
  stands in the header of the block, and the string is read there. \<^verbatim>\<open>curpos\<close> is the
  position. The level is a \<^verbatim>\<open>char\<close>, signed on the platform modelled, widened to
  \<^verbatim>\<open>int\<close>.
\<close>

definition form_row :: "byte list \<Rightarrow> int32 \<Rightarrow> fault + logged_row" where
  "form_row item curpos =
     (let it = item_fields item;
          data0 = int ITEM_HDR_LEN;
          data1 = data0 + sint (message_len it);
          data2 = (if detail_len it \<noteq> 0 then data1 + sint (detail_len it) else data1)
      in
      case cstring_at item data0 of Inl e \<Rightarrow> Inl e | Inr msg \<Rightarrow>
      case (if detail_len it \<noteq> 0 then map_sum id Some (cstring_at item data1) else Inr None) of
        Inl e \<Rightarrow> Inl e | Inr det \<Rightarrow>
      case (if hint_len it \<noteq> 0 then map_sum id Some (cstring_at item data2) else Inr None) of
        Inl e \<Rightarrow> Inl e | Inr hnt \<Rightarrow>
      Inr \<lparr>level = scast (elevel it), errno = saved_errno it, message = msg,
           detail = det, hint = hnt, position = curpos\<rparr>)"

text \<open>The body of the loop after the check for a header: one record, as a row.\<close>

definition next_row ::
  "LoggingShmemHdr \<Rightarrow> logged_data_ctx \<Rightarrow> fault + (logged_row \<times> LoggingShmemHdr \<times> logged_data_ctx)" where
  "next_row h c =
     (let curpos = readpos h in
      case copy_item h c of Inl e \<Rightarrow> Inl e | Inr (item, h', c') \<Rightarrow>
      case form_row item curpos of Inl e \<Rightarrow> Inl e | Inr row \<Rightarrow> Inr (row, h', c'))"

text \<open>
  What one call of the set-returning function gives back: a row
  (\<^verbatim>\<open>SRF_RETURN_NEXT\<close>) or the end of the set (\<^verbatim>\<open>SRF_RETURN_DONE\<close>), with the shared
  header and the context as the call leaves them.
\<close>

type_synonym call_result = "fault + (logged_row option \<times> LoggingShmemHdr \<times> logged_data_ctx)"

text \<open>
  What a call returns when it reads the record at the read cursor: the row, handed over
  by \<^verbatim>\<open>SRF_RETURN_NEXT\<close>, unless the step faults.
\<close>

definition emit :: "LoggingShmemHdr \<Rightarrow> logged_data_ctx \<Rightarrow> call_result" where
  "emit h c = (case next_row h c of Inl e \<Rightarrow> Inl e | Inr (row, h', c') \<Rightarrow> Inr (Some row, h', c'))"

text \<open>
  The \<^verbatim>\<open>while\<close> loop of one call. \<^verbatim>\<open>continue\<close> is the recursive call; a loop that
  never leaves is \<open>None\<close>. When the condition fails the lock is released and the set
  ends (\<^verbatim>\<open>SRF_RETURN_DONE\<close>).
\<close>

partial_function (option) get_logged_data_loop ::
  "LoggingShmemHdr \<Rightarrow> logged_data_ctx \<Rightarrow> call_result option" where
  "get_logged_data_loop h c =
     (if loop_cond h c then
        (if no_room_for_header h
         then get_logged_data_loop (h\<lparr>readpos := 0\<rparr>) (c\<lparr>wraparound := False\<rparr>)
         else Some (emit h c))
      else Some (Inr (None, LWLockRelease h, c)))"

declare get_logged_data_loop.simps [code]

text \<open>
  A store whose arena cannot hold a header even at offset 0 keeps the loop turning for
  ever once there is something to read.
\<close>

definition stuck :: "LoggingShmemHdr \<Rightarrow> logged_data_ctx \<Rightarrow> bool" where
  "stuck h c = (loop_cond h c \<and> no_room_for_header h \<and>
     loop_cond (h\<lparr>readpos := 0\<rparr>) (c\<lparr>wraparound := False\<rparr>) \<and>
     no_room_for_header (h\<lparr>readpos := 0\<rparr>))"

text \<open>
  The first call takes the lock and the snapshot; every call then runs the loop. The
  context of the session is \<open>None\<close> before the first call.
\<close>

definition first_call :: "LoggingShmemHdr \<Rightarrow> (LoggingShmemHdr \<times> logged_data_ctx) option" where
  "first_call h =
     (case LWLockAcquire h of
        None \<Rightarrow> None
      | Some h1 \<Rightarrow>
          Some (h1, \<lparr>until = endpos h1, startpos = readpos h1,
                     wraparound = (endpos h1 < readpos h1)\<rparr>))"

definition get_logged_data ::
  "LoggingShmemHdr \<Rightarrow> logged_data_ctx option \<Rightarrow> call_result option" where
  "get_logged_data h fctx =
     (case fctx of
        None \<Rightarrow> (case first_call h of None \<Rightarrow> None | Some (h1, c) \<Rightarrow> get_logged_data_loop h1 c)
      | Some c \<Rightarrow> get_logged_data_loop h c)"

text \<open>
  A drain session: the executor calls the function until it reports the end. At most
  \<open>n\<close> calls are followed; the rows they returned come with the way the session stood
  then.
\<close>

datatype session_end = Done LoggingShmemHdr | Failed fault | Hangs | Unfinished

fun drain_from :: "nat \<Rightarrow> LoggingShmemHdr \<Rightarrow> logged_data_ctx option \<Rightarrow> logged_row list \<times> session_end" where
  "drain_from 0 h fctx = ([], Unfinished)"
| "drain_from (Suc n) h fctx =
     (case get_logged_data h fctx of
        None \<Rightarrow> ([], Hangs)
      | Some (Inl e) \<Rightarrow> ([], Failed e)
      | Some (Inr (None, h', c')) \<Rightarrow> ([], Done h')
      | Some (Inr (Some row, h', c')) \<Rightarrow>
          (case drain_from n h' (Some c') of (rows, e) \<Rightarrow> (row # rows, e)))"

definition drain :: "nat \<Rightarrow> LoggingShmemHdr \<Rightarrow> logged_row list \<times> session_end" where
  "drain n h = drain_from n h None"

subsection \<open>Well-formed stores\<close>

text \<open>
  The header describes its arena: \<^verbatim>\<open>buffer_size\<close> is not negative and is the number of
  bytes \<^verbatim>\<open>data\<close> points to.
\<close>

definition arena_ok :: "LoggingShmemHdr \<Rightarrow> bool" where
  "arena_ok h = (0 \<le> sint (buffer_size h) \<and> length (data h) = unat (buffer_size h))"

text \<open>The total length that the record header at the read cursor announces.\<close>

definition totallen_at :: "LoggingShmemHdr \<Rightarrow> int32" where
  "totallen_at h = le32 (data h) (unat (readpos h) + 4)"

text \<open>The fields of the record header that lies at the read cursor.\<close>

definition header_at :: "LoggingShmemHdr \<Rightarrow> CollectedItem" where
  "header_at h = item_fields (drop (unat (readpos h)) (data h))"

text \<open>
  The record header at the read cursor announces a length that is positive and not more
  than the size of the arena (both are \<^verbatim>\<open>int\<close>).
\<close>

definition record_fits :: "LoggingShmemHdr \<Rightarrow> bool" where
  "record_fits h = (0 < sint (totallen_at h) \<and> sint (totallen_at h) \<le> sint (buffer_size h))"

text \<open>
  Where the loop of a call evaluates its condition for the last time: at entry, or after
  the jump to offset 0 when the condition held at entry and there was no room for a
  header.
\<close>

definition loop_place :: "LoggingShmemHdr \<Rightarrow> logged_data_ctx \<Rightarrow> LoggingShmemHdr \<times> logged_data_ctx" where
  "loop_place h c =
     (if loop_cond h c \<and> no_room_for_header h
      then (h\<lparr>readpos := 0\<rparr>, c\<lparr>wraparound := False\<rparr>) else (h, c))"

text \<open>The store in which a call reads a record header, when it reads one.\<close>

definition header_read :: "LoggingShmemHdr \<Rightarrow> logged_data_ctx \<Rightarrow> LoggingShmemHdr option" where
  "header_read h c =
     (case loop_place h c of
        (h1, c1) \<Rightarrow> if loop_cond h1 c1 \<and> \<not> no_room_for_header h1 then Some h1 else None)"


text \<open>The store with the four bytes of the magic field at the read cursor replaced by \<open>m\<close>.\<close>

definition set_magic :: "byte list \<Rightarrow> LoggingShmemHdr \<Rightarrow> LoggingShmemHdr" where
  "set_magic m h =
     h\<lparr>data := take (unat (readpos h)) (data h) @ m @ drop (unat (readpos h) + 4) (data h)\<rparr>"

subsection \<open>Concrete arenas\<close>

text \<open>
  A record header as the bytes a little-endian producer leaves: the magic
  \<^verbatim>\<open>0x06054AB5\<close>, a total length and a message length below 256, errno 2, level 20, no
  detail and no hint.
\<close>

definition sample_header :: "byte \<Rightarrow> byte \<Rightarrow> byte list" where
  "sample_header len mlen =
     [0xB5, 0x4A, 0x05, 0x06,  len, 0, 0, 0,  2, 0, 0, 0,  20, 0, 0, 0,
      mlen, 0, 0, 0,  0, 0, 0, 0,  0, 0, 0, 0]"

text \<open>A record of 32 bytes with the message "hi", padded to a multiple of four.\<close>

definition sample_record :: "byte list" where
  "sample_record = sample_header 32 3 @ [0x68, 0x69, 0, 0]"

text \<open>
  An arena of 96 bytes holding two such records at 0 and 32, written but not yet read:
  the write cursor stands at 64.
\<close>

definition arena_two :: LoggingShmemHdr where
  "arena_two =
     \<lparr>data = sample_record @ sample_record @ replicate 32 0,
      endpos = 64, readpos = 0, buffer_size = 96, hdr_lock = False,
      LoggingShmemHdr.wraparound = False\<rparr>"

text \<open>The context a session gets at its first call on \<open>arena_two\<close>.\<close>

definition ctx_two :: logged_data_ctx where
  "ctx_two = \<lparr>until = 64, startpos = 0, wraparound = False\<rparr>"

text \<open>
  An arena of 64 bytes that the two records fill exactly. The first has been read; the
  write cursor has come round to 0, so that the second ends where the arena ends.
\<close>

definition arena_full :: LoggingShmemHdr where
  "arena_full =
     \<lparr>data = sample_record @ sample_record,
      endpos = 0, readpos = 32, buffer_size = 64, hdr_lock = True,
      LoggingShmemHdr.wraparound = True\<rparr>"

definition ctx_full :: logged_data_ctx where
  "ctx_full = \<lparr>until = 0, startpos = 32, wraparound = True\<rparr>"

text \<open>
  An arena of 64 bytes with a record of 36 bytes at 32, message "abcdefg": its last four
  payload bytes lie at the start of the arena, and the write cursor stands behind them.
\<close>

definition arena_split :: LoggingShmemHdr where
  "arena_split =
     \<lparr>data = [0x65, 0x66, 0x67, 0] @ replicate 28 0 @ sample_header 36 8 @ [0x61, 0x62, 0x63, 0x64],
      endpos = 4, readpos = 32, buffer_size = 64, hdr_lock = True,
      LoggingShmemHdr.wraparound = True\<rparr>"

definition ctx_split :: logged_data_ctx where
  "ctx_split = \<lparr>until = 4, startpos = 32, wraparound = True\<rparr>"

text \<open>
  An arena of 64 bytes whose read cursor stands at 40, too close to the end for a header;
  one unread record lies at 0 and the write cursor at 32.
\<close>

definition arena_tail :: LoggingShmemHdr where
  "arena_tail =
     \<lparr>data = sample_record @ replicate 32 0,
      endpos = 32, readpos = 40, buffer_size = 64, hdr_lock = True,
      LoggingShmemHdr.wraparound = True\<rparr>"

definition ctx_tail :: logged_data_ctx where
  "ctx_tail = \<lparr>until = 32, startpos = 40, wraparound = True\<rparr>"

text \<open>The row that \<open>sample_record\<close> decodes to, read at position \<open>p\<close>.\<close>

definition sample_row :: "int32 \<Rightarrow> logged_row" where
  "sample_row p =
     \<lparr>level = 20, errno = 2, message = [0x68, 0x69], detail = None, hint = None, position = p\<rparr>"

text \<open>
  The arena of \<open>arena_two\<close> with the magic of its first record overwritten by zeros.
\<close>

definition arena_bad_magic :: LoggingShmemHdr where
  "arena_bad_magic = set_magic [0, 0, 0, 0] arena_two"



text \<open>
  An arena of 64 bytes with one record of 32 bytes at 0 whose \<^verbatim>\<open>message_len\<close> is -28
  and whose \<^verbatim>\<open>detail_len\<close> is 1: after the message the pointer stands on the first
  byte of the block.
\<close>

definition arena_negative :: LoggingShmemHdr where
  "arena_negative =
     \<lparr>data = [0xB5, 0x4A, 0x05, 0x06,  32, 0, 0, 0,  2, 0, 0, 0,  20, 0, 0, 0,
              0xE4, 0xFF, 0xFF, 0xFF,  1, 0, 0, 0,  0, 0, 0, 0,  0x68, 0x69, 0, 0] @ replicate 32 0,
      endpos = 32, readpos = 0, buffer_size = 64, hdr_lock = True,
      LoggingShmemHdr.wraparound = False\<rparr>"

definition ctx_negative :: logged_data_ctx where
  "ctx_negative = \<lparr>until = 32, startpos = 0, wraparound = False\<rparr>"

subsection \<open>Facts about the level table\<close>

declare get_errlevel_name_from.simps [simp del]


lemma get_errlevel_name_from_Inl:
  "get_errlevel_name_from wl c i = Inl e \<longleftrightarrow>
     e = Invalid_error_level_name \<and>
     (\<forall>j. i \<le> j \<and> j \<le> MAX_HASH_VALUE \<longrightarrow> text' (wl j) = None \<or> code (wl j) \<noteq> c)"
proof (induction wl c i rule: get_errlevel_name_from.induct)
  case (1 wl c i)
  show ?case
  proof (cases "i \<le> MAX_HASH_VALUE")
    case False
    then show ?thesis by (subst get_errlevel_name_from.simps) auto
  next
    case le: True
    show ?thesis
    proof (cases "text' (wl i) \<noteq> None \<and> code (wl i) = c")
      case True
      with le show ?thesis by (subst get_errlevel_name_from.simps) (auto simp: Let_def)
    next
      case False
      with le have step:
        "get_errlevel_name_from wl c i = get_errlevel_name_from wl c (i + 1)"
        by (subst get_errlevel_name_from.simps) (auto simp: Let_def)
      have range: "(\<forall>j. i \<le> j \<and> j \<le> MAX_HASH_VALUE \<longrightarrow> text' (wl j) = None \<or> code (wl j) \<noteq> c)
          \<longleftrightarrow> (\<forall>j. i + 1 \<le> j \<and> j \<le> MAX_HASH_VALUE \<longrightarrow> text' (wl j) = None \<or> code (wl j) \<noteq> c)"
      proof (intro iffI allI impI)
        fix j
        assume all: "\<forall>j. i + 1 \<le> j \<and> j \<le> MAX_HASH_VALUE \<longrightarrow> text' (wl j) = None \<or> code (wl j) \<noteq> c"
          and j: "i \<le> j \<and> j \<le> MAX_HASH_VALUE"
        show "text' (wl j) = None \<or> code (wl j) \<noteq> c"
        proof (cases "j = i")
          case True
          with False show ?thesis by simp
        next
          case False
          with j have "i + 1 \<le> j \<and> j \<le> MAX_HASH_VALUE" by simp
          with all show ?thesis by blast
        qed
      next
        fix j
        assume all: "\<forall>j. i \<le> j \<and> j \<le> MAX_HASH_VALUE \<longrightarrow> text' (wl j) = None \<or> code (wl j) \<noteq> c"
          and j: "i + 1 \<le> j \<and> j \<le> MAX_HASH_VALUE"
        then have "i \<le> j \<and> j \<le> MAX_HASH_VALUE" by simp
        with all show "text' (wl j) = None \<or> code (wl j) \<noteq> c" by blast
      qed
      from "1.IH" [OF le refl False] step range show ?thesis by simp
    qed
  qed
qed

lemma get_errlevel_name_from_Inr:
  "get_errlevel_name_from wl c i = Inr s \<longleftrightarrow>
     (\<exists>j. i \<le> j \<and> j \<le> MAX_HASH_VALUE \<and> text' (wl j) = Some s \<and> code (wl j) = c \<and>
          (\<forall>k. i \<le> k \<and> k < j \<longrightarrow> text' (wl k) = None \<or> code (wl k) \<noteq> c))"
proof (induction wl c i rule: get_errlevel_name_from.induct)
  case (1 wl c i)
  show ?case
  proof (cases "i \<le> MAX_HASH_VALUE")
    case False
    then show ?thesis by (subst get_errlevel_name_from.simps) auto
  next
    case le: True
    show ?thesis
    proof (cases "text' (wl i) \<noteq> None \<and> code (wl i) = c")
      case True
      then obtain t where t: "text' (wl i) = Some t" by auto
      from True le t have val: "get_errlevel_name_from wl c i = Inr t"
        by (subst get_errlevel_name_from.simps) (simp add: Let_def)
      show ?thesis
      proof
        assume "get_errlevel_name_from wl c i = Inr s"
        with val have "s = t" by simp
        with t True le show "\<exists>j. i \<le> j \<and> j \<le> MAX_HASH_VALUE \<and> text' (wl j) = Some s \<and>
            code (wl j) = c \<and> (\<forall>k. i \<le> k \<and> k < j \<longrightarrow> text' (wl k) = None \<or> code (wl k) \<noteq> c)"
          by (intro exI [of _ i]) auto
      next
        assume "\<exists>j. i \<le> j \<and> j \<le> MAX_HASH_VALUE \<and> text' (wl j) = Some s \<and>
            code (wl j) = c \<and> (\<forall>k. i \<le> k \<and> k < j \<longrightarrow> text' (wl k) = None \<or> code (wl k) \<noteq> c)"
        then obtain j where j: "i \<le> j" "text' (wl j) = Some s"
          "\<forall>k. i \<le> k \<and> k < j \<longrightarrow> text' (wl k) = None \<or> code (wl k) \<noteq> c" by blast
        have "j = i"
        proof (rule ccontr)
          assume "j \<noteq> i"
          with j(1) have "i \<le> i \<and> i < j" by simp
          with j(3) have "text' (wl i) = None \<or> code (wl i) \<noteq> c" by blast
          with True show False by simp
        qed
        with j(2) t val show "get_errlevel_name_from wl c i = Inr s" by simp
      qed
    next
      case False
      with le have step:
        "get_errlevel_name_from wl c i = get_errlevel_name_from wl c (i + 1)"
        by (subst get_errlevel_name_from.simps) (auto simp: Let_def)
      have range: "(\<exists>j. i \<le> j \<and> j \<le> MAX_HASH_VALUE \<and> text' (wl j) = Some s \<and> code (wl j) = c \<and>
            (\<forall>k. i \<le> k \<and> k < j \<longrightarrow> text' (wl k) = None \<or> code (wl k) \<noteq> c))
          \<longleftrightarrow> (\<exists>j. i + 1 \<le> j \<and> j \<le> MAX_HASH_VALUE \<and> text' (wl j) = Some s \<and> code (wl j) = c \<and>
            (\<forall>k. i + 1 \<le> k \<and> k < j \<longrightarrow> text' (wl k) = None \<or> code (wl k) \<noteq> c))"
        (is "?L \<longleftrightarrow> ?R")
      proof
        assume ?L
        then obtain j where j: "i \<le> j" "j \<le> MAX_HASH_VALUE" "text' (wl j) = Some s"
          "code (wl j) = c"
          "\<forall>k. i \<le> k \<and> k < j \<longrightarrow> text' (wl k) = None \<or> code (wl k) \<noteq> c" by blast
        from j(3,4) False have "j \<noteq> i" by auto
        with j(1) have "i + 1 \<le> j" by simp
        with j show ?R by (intro exI [of _ j]) auto
      next
        assume ?R
        then obtain j where j: "i + 1 \<le> j" "j \<le> MAX_HASH_VALUE" "text' (wl j) = Some s"
          "code (wl j) = c"
          "\<forall>k. i + 1 \<le> k \<and> k < j \<longrightarrow> text' (wl k) = None \<or> code (wl k) \<noteq> c" by blast
        have "\<forall>k. i \<le> k \<and> k < j \<longrightarrow> text' (wl k) = None \<or> code (wl k) \<noteq> c"
        proof (intro allI impI)
          fix k assume k: "i \<le> k \<and> k < j"
          show "text' (wl k) = None \<or> code (wl k) \<noteq> c"
          proof (cases "k = i")
            case True
            with False show ?thesis by simp
          next
            case False
            with k have "i + 1 \<le> k \<and> k < j" by simp
            with j(5) show ?thesis by blast
          qed
        qed
        with j show ?L by (intro exI [of _ j]) auto
      qed
      from "1.IH" [OF le refl False] step range show ?thesis by simp
    qed
  qed
qed

lemma get_errlevel_name_Inl:
  "get_errlevel_name wl c = Inl e \<longleftrightarrow> e = Invalid_error_level_name \<and> \<not> registered_code wl c"
  by (auto simp: get_errlevel_name_def get_errlevel_name_from_Inl registered_code_def Ball_def)

lemma get_errlevel_name_Inr:
  "get_errlevel_name wl c = Inr s \<longleftrightarrow>
     (\<exists>j \<in> {0 .. MAX_HASH_VALUE}. text' (wl j) = Some s \<and> code (wl j) = c \<and>
        (\<forall>k < j. text' (wl k) = None \<or> code (wl k) \<noteq> c))"
  by (auto simp: get_errlevel_name_def get_errlevel_name_from_Inr)

lemma get_errlevel_None:
  "get_errlevel wl str len = None \<longleftrightarrow> \<not> registered wl str"
  by (auto simp: get_errlevel_def registered_def find_None_iff less_Suc_eq_le
      simp del: upt_Suc)

lemma get_errlevel_Some:
  "get_errlevel wl str len = Some el \<Longrightarrow>
     \<exists>i \<in> {0 .. MAX_HASH_VALUE}. wl i = el \<and> text' (wl i) = Some str"
  by (auto simp: get_errlevel_def find_Some_iff less_Suc_eq_le simp del: upt_Suc)

text \<open>
  C7. \<^verbatim>\<open>errlevel_in\<close> fails with "Empty status name" on the empty string, fails with
  "Unknown level name" when no table entry has exactly this text, and otherwise returns the
  code of an entry with this text; \<^verbatim>\<open>errlevel_out\<close> fails with "Invalid error level
  name" when no named entry has the code, and otherwise returns the text of an entry with
  this code.
\<close>

theorem level_lookup_outcomes:
  "errlevel_in wl [] = Inl Empty_status_name \<and>
   (str \<noteq> [] \<and> \<not> registered wl str \<longrightarrow> errlevel_in wl str = Inl (Unknown_level_name str)) \<and>
   (str \<noteq> [] \<and> registered wl str \<longrightarrow>
      (\<exists>i \<in> {0 .. MAX_HASH_VALUE}. text' (wl i) = Some str \<and> errlevel_in wl str = Inr (code (wl i)))) \<and>
   (\<not> registered_code wl c \<longrightarrow> errlevel_out wl c = Inl Invalid_error_level_name) \<and>
   (registered_code wl c \<longrightarrow>
      (\<exists>i \<in> {0 .. MAX_HASH_VALUE}. \<exists>s. text' (wl i) = Some s \<and> code (wl i) = c \<and> errlevel_out wl c = Inr s))"
proof (intro conjI impI)
  show "errlevel_in wl [] = Inl Empty_status_name"
    by (simp add: errlevel_in_def)
next
  assume "str \<noteq> [] \<and> \<not> registered wl str"
  then show "errlevel_in wl str = Inl (Unknown_level_name str)"
    by (simp add: errlevel_in_def get_errlevel_None [THEN iffD2])
next
  assume a: "str \<noteq> [] \<and> registered wl str"
  then obtain el where el: "get_errlevel wl str (length str) = Some el"
    using get_errlevel_None [of wl str "length str"] by auto
  from get_errlevel_Some [OF el] obtain i where
    i: "i \<in> {0 .. MAX_HASH_VALUE}" "wl i = el" "text' (wl i) = Some str" by blast
  from a el i(2) have "errlevel_in wl str = Inr (code (wl i))"
    by (simp add: errlevel_in_def)
  with i show "\<exists>i \<in> {0 .. MAX_HASH_VALUE}. text' (wl i) = Some str \<and>
      errlevel_in wl str = Inr (code (wl i))" by blast
next
  assume "\<not> registered_code wl c"
  then show "errlevel_out wl c = Inl Invalid_error_level_name"
    by (simp add: errlevel_out_def get_errlevel_name_Inl)
next
  assume "registered_code wl c"
  then have "\<forall>e. get_errlevel_name wl c \<noteq> Inl e"
    by (simp add: get_errlevel_name_Inl)
  then obtain s where s: "get_errlevel_name wl c = Inr s"
    by (cases "get_errlevel_name wl c") auto
  then obtain j where "j \<in> {0 .. MAX_HASH_VALUE}" "text' (wl j) = Some s" "code (wl j) = c"
    unfolding get_errlevel_name_Inr by blast
  with s show "\<exists>i \<in> {0 .. MAX_HASH_VALUE}. \<exists>s. text' (wl i) = Some s \<and> code (wl i) = c \<and>
      errlevel_out wl c = Inr s"
    by (auto simp: errlevel_out_def)
qed

lemma sample_registered_error: "registered sample_wordlist ''error''"
  unfolding registered_def
  by (rule bexI [of _ 5]) (simp_all add: sample_wordlist_def MAX_HASH_VALUE_def)

lemma sample_not_registered_Error: "\<not> registered sample_wordlist ''Error''"
  by (simp add: registered_def sample_wordlist_def)

lemma sample_registered_code_20: "registered_code sample_wordlist 20"
  unfolding registered_code_def
  by (rule bexI [of _ 5]) (simp_all add: sample_wordlist_def MAX_HASH_VALUE_def)

lemma sample_not_registered_code_99: "\<not> registered_code sample_wordlist 99"
  by (simp add: registered_code_def sample_wordlist_def)

lemma sample_code_20:
  "text' (sample_wordlist i) = Some s \<Longrightarrow> code (sample_wordlist i) = 20 \<Longrightarrow> s = ''error''"
  by (simp add: sample_wordlist_def split: if_splits)

lemma sample_text_error:
  "text' (sample_wordlist i) = Some ''error'' \<Longrightarrow> code (sample_wordlist i) = 20"
  by (simp add: sample_wordlist_def split: if_splits)

theorem level_lookup_outcomes_witness:
  "errlevel_in sample_wordlist '''' = Inl Empty_status_name \<and>
   errlevel_in sample_wordlist ''Error'' = Inl (Unknown_level_name ''Error'') \<and>
   errlevel_in sample_wordlist ''error'' = Inr 20 \<and>
   errlevel_out sample_wordlist 99 = Inl Invalid_error_level_name \<and>
   errlevel_out sample_wordlist 20 = Inr ''error''"
proof -
  note up = level_lookup_outcomes [of sample_wordlist "''Error''" 99]
  note lo = level_lookup_outcomes [of sample_wordlist "''error''" 20]
  have 1: "errlevel_in sample_wordlist '''' = Inl Empty_status_name"
    using up by blast
  have 2: "errlevel_in sample_wordlist ''Error'' = Inl (Unknown_level_name ''Error'')"
    using up sample_not_registered_Error by simp
  have "\<exists>i \<in> {0 .. MAX_HASH_VALUE}. text' (sample_wordlist i) = Some ''error'' \<and>
      errlevel_in sample_wordlist ''error'' = Inr (code (sample_wordlist i))"
    using lo sample_registered_error by simp
  then have 3: "errlevel_in sample_wordlist ''error'' = Inr 20"
    using sample_text_error by force
  have 4: "errlevel_out sample_wordlist 99 = Inl Invalid_error_level_name"
    using up sample_not_registered_code_99 by blast
  have "\<exists>i \<in> {0 .. MAX_HASH_VALUE}. \<exists>s. text' (sample_wordlist i) = Some s \<and>
      code (sample_wordlist i) = 20 \<and> errlevel_out sample_wordlist 20 = Inr s"
    using lo sample_registered_code_20 by blast
  then have 5: "errlevel_out sample_wordlist 20 = Inr ''error''"
    using sample_code_20 by blast
  from 1 2 3 4 5 show ?thesis by blast
qed

text \<open>
  C8. In a registry, every registered level name survives the round trip through its code:
  \<^verbatim>\<open>errlevel_in\<close> succeeds on it and \<^verbatim>\<open>errlevel_out\<close> of the code gives the name
  back.
\<close>

theorem level_round_trip:
  assumes reg: "registry wl" and n: "registered wl n"
  shows "\<exists>c. errlevel_in wl n = Inr c \<and> errlevel_out wl c = Inr n"
proof -
  from n obtain i0 where i0: "i0 \<in> {0 .. MAX_HASH_VALUE}" "text' (wl i0) = Some n"
    unfolding registered_def by blast
  with reg have ne: "n \<noteq> []" unfolding registry_def by auto
  from n obtain el where el: "get_errlevel wl n (length n) = Some el"
    using get_errlevel_None [of wl n "length n"] by auto
  from get_errlevel_Some [OF el] obtain i where
    i: "i \<in> {0 .. MAX_HASH_VALUE}" "wl i = el" "text' (wl i) = Some n" by blast
  from ne el i(2) have inn: "errlevel_in wl n = Inr (code (wl i))"
    by (simp add: errlevel_in_def)
  have first: "\<forall>k < i. text' (wl k) = None \<or> code (wl k) \<noteq> code (wl i)"
  proof (intro allI impI)
    fix k assume k: "k < i"
    with i(1) have kin: "k \<in> {0 .. MAX_HASH_VALUE}" by simp
    show "text' (wl k) = None \<or> code (wl k) \<noteq> code (wl i)"
    proof (rule ccontr)
      assume "\<not> (text' (wl k) = None \<or> code (wl k) \<noteq> code (wl i))"
      with reg kin i(1,3) have "k = i" unfolding registry_def by auto
      with k show False by simp
    qed
  qed
  with i have "get_errlevel_name wl (code (wl i)) = Inr n"
    unfolding get_errlevel_name_Inr by blast
  with inn show ?thesis by (auto simp: errlevel_out_def)
qed

lemma sample_registry: "registry sample_wordlist"
  by (simp add: registry_def sample_wordlist_def)

theorem level_round_trip_witness:
  "registry sample_wordlist \<and> registered sample_wordlist ''error'' \<and>
   errlevel_in sample_wordlist ''error'' = Inr 20 \<and>
   errlevel_out sample_wordlist 20 = Inr ''error''"
proof -
  obtain c where c: "errlevel_in sample_wordlist ''error'' = Inr c"
    "errlevel_out sample_wordlist c = Inr ''error''"
    using level_round_trip [OF sample_registry sample_registered_error] by blast
  obtain el where el: "get_errlevel sample_wordlist ''error'' (length ''error'') = Some el"
    "c = code el"
    using c(1) by (auto simp: errlevel_in_def Let_def split: option.splits)
  from get_errlevel_Some [OF el(1)] sample_text_error el(2) have "c = 20" by blast
  with c sample_registry sample_registered_error show ?thesis by simp
qed

subsection \<open>Conversions between the integer types\<close>

lemma uint_scast_32_64: "uint (scast (w :: 32 word) :: 64 word) = sint w mod 2 ^ 64"
  unfolding scast_eq uint_word_of_int by simp

lemma uint_eq_sint: "0 \<le> sint (w :: 32 word) \<Longrightarrow> uint w = sint w"
  using sint_lt [of w] by (simp add: uint_sint take_bit_int_eq_self)

lemma unat_scast_nonneg: "0 \<le> sint (w :: 32 word) \<Longrightarrow> unat (scast w :: 64 word) = unat w"
proof -
  assume a: "0 \<le> sint w"
  have lt: "sint w < 2 ^ 31" using sint_lt [of w] by simp
  have "sint w mod 2 ^ 64 = sint w"
    using a lt by (intro mod_pos_pos_trivial) simp_all
  then have "uint (scast w :: 64 word) = uint w"
    using a by (simp add: uint_scast_32_64 uint_eq_sint)
  then have "nat (uint (scast w :: 64 word)) = nat (uint w)"
    by (rule arg_cong)
  then show ?thesis by simp
qed

lemma uint_less_of_unat: "unat (w :: 32 word) < n \<Longrightarrow> uint w < int n"
proof -
  assume "unat w < n"
  then have "int (unat w) < int n" by (simp only: of_nat_less_iff)
  then show ?thesis by simp
qed

lemma uint_scast_neg: "sint (w :: 32 word) < 0 \<Longrightarrow> uint (scast w :: 64 word) = sint w + 2 ^ 64"
proof -
  assume neg: "sint w < 0"
  have ge: "- (2 ^ 31) \<le> sint w" using sint_ge [of w] by simp
  have "sint w mod 2 ^ 64 = (sint w + 2 ^ 64) mod 2 ^ 64" by simp
  also have "\<dots> = sint w + 2 ^ 64"
    using neg ge by (intro mod_pos_pos_trivial) simp_all
  finally show ?thesis by (simp add: uint_scast_32_64)
qed

lemma sint_eq_unat: "unat (w :: 32 word) < 2 ^ 31 \<Longrightarrow> sint w = int (unat w)"
proof -
  assume "unat w < 2 ^ 31"
  then have lt: "uint w < 2 ^ 31" using uint_less_of_unat [of w "2 ^ 31"] by simp
  have "- (2 ^ 31) \<le> (0::int)" by simp
  with uint_nonnegative [of w] have ge: "- (2 ^ 31) \<le> uint w" by linarith
  from ge lt have "signed_take_bit 31 (uint w) = uint w"
    by (rule signed_take_bit_int_eq_self)
  then show ?thesis by (simp add: sint_uint)
qed

lemma sint_nonneg_of_unat: "unat (w :: 32 word) < 2 ^ 31 \<Longrightarrow> 0 \<le> sint w"
  by (simp add: sint_eq_unat)

lemma unat_less_of_sint: "0 \<le> sint (w :: 32 word) \<Longrightarrow> unat w < 2 ^ 31"
proof -
  assume a: "0 \<le> sint w"
  have "sint w < 2 ^ 31" using sint_lt [of w] by simp
  with a have "uint w < 2 ^ 31" by (simp add: uint_eq_sint)
  then have "nat (uint w) < nat (2 ^ 31)" using uint_nonnegative [of w] by linarith
  then show ?thesis by simp
qed

lemma unat_32_bound: "unat (w :: 32 word) < 2 ^ 32"
  using unsigned_less [of w, where 'a = nat] by simp

lemma unat_ucast_32_64: "unat (ucast (w :: 32 word) :: 64 word) = unat w"
proof -
  have "unat w < 2 ^ 64" using unat_32_bound [of w] by simp
  then have "take_bit 64 (unat w) = unat w" by (rule take_bit_nat_eq_self)
  then show ?thesis by (simp add: unsigned_ucast_eq)
qed

lemma unat_of_nat_64: "n < 2 ^ 32 \<Longrightarrow> unat (of_nat n :: 64 word) = n"
  by (simp add: unat_of_nat)

lemma unat_ucast_plus: "unat (ucast (r :: 32 word) + (of_nat n :: 64 word)) = unat r + n" if "n < 2 ^ 32"
proof -
  have n: "unat (of_nat n :: 64 word) = n"
    using that by (rule unat_of_nat_64)
  have "unat r + n < 2 ^ 64"
    using unat_32_bound [of r] that by simp
  then have "unat (ucast r :: 64 word) + unat (of_nat n :: 64 word) < 2 ^ LENGTH(64)"
    by (simp add: unat_ucast_32_64 n)
  then have "unat (ucast r + (of_nat n :: 64 word)) = unat (ucast r :: 64 word) + unat (of_nat n :: 64 word)"
    by (simp only: unat_add_lem)
  then show ?thesis by (simp add: unat_ucast_32_64 n)
qed

lemma unat_add_32: "unat (a :: 32 word) + unat b < 2 ^ 32 \<Longrightarrow> unat (a + b) = unat a + unat b"
  using unat_add_lem [of a b] by simp

lemma unat_sub_32: "unat (b :: 32 word) \<le> unat a \<Longrightarrow> unat (a - b) = unat a - unat b"
  by (simp add: unat_sub word_le_nat_alt)

lemma scast_le_MaxAllocSize:
  "(scast (w :: 32 word) :: 64 word) \<le> MaxAllocSize \<longleftrightarrow> unat w \<le> 0x3fffffff"
proof (cases "0 \<le> sint w")
  case True
  have "unat MaxAllocSize = 0x3fffffff" by (simp add: MaxAllocSize_def)
  with True show ?thesis
    by (simp add: word_le_nat_alt unat_scast_nonneg)
next
  case False
  then have neg: "sint w < 0" by simp
  have ge: "- (2 ^ 31) \<le> sint w" using sint_ge [of w] by simp
  have "uint MaxAllocSize = 0x3fffffff" by (simp add: MaxAllocSize_def)
  moreover have "uint (scast w :: 64 word) \<ge> 2 ^ 63"
    using ge by (simp add: uint_scast_neg [OF neg])
  ultimately have 1: "\<not> (scast w :: 64 word) \<le> MaxAllocSize"
    by (simp add: word_le_def)
  have "\<not> unat w < 2 ^ 31"
    using neg sint_nonneg_of_unat [of w] by auto
  then have "\<not> unat w \<le> 0x3fffffff" by simp
  with 1 show ?thesis by simp
qed

lemma no_room_for_header_iff:
  assumes "arena_ok h"
  shows "no_room_for_header h \<longleftrightarrow> unat (buffer_size h) < unat (readpos h) + ITEM_HDR_LEN"
proof -
  from assms have "unat (scast (buffer_size h) :: 64 word) = unat (buffer_size h)"
    by (simp add: arena_ok_def unat_scast_nonneg)
  moreover have "unat (ucast (readpos h) + (of_nat ITEM_HDR_LEN :: 64 word)) = unat (readpos h) + ITEM_HDR_LEN"
    by (rule unat_ucast_plus) (simp add: ITEM_HDR_LEN_def)
  ultimately show ?thesis
    by (simp add: no_room_for_header_def word_less_nat_alt)
qed

lemma two_parts_iff:
  assumes "unat (readpos h) + unat len < 2 ^ 32"
  shows "two_parts h len \<longleftrightarrow> unat (buffer_size h) \<le> unat (readpos h) + unat len"
  using assms by (simp add: two_parts_def word_le_nat_alt unat_add_32)

lemma unat_taillen_of:
  assumes "unat (readpos h) + ITEM_HDR_LEN \<le> unat (buffer_size h)"
  shows "unat (taillen_of h) = unat (buffer_size h) - unat (readpos h) - ITEM_HDR_LEN"
proof -
  let ?d = "buffer_size h - readpos h"
  from assms have d: "unat ?d = unat (buffer_size h) - unat (readpos h)"
    by (simp add: unat_sub_32)
  have n: "unat (of_nat ITEM_HDR_LEN :: 64 word) = ITEM_HDR_LEN"
    by (rule unat_of_nat_64) (simp add: ITEM_HDR_LEN_def)
  from assms d have le: "unat (of_nat ITEM_HDR_LEN :: 64 word) \<le> unat (ucast ?d :: 64 word)"
    by (simp add: n unat_ucast_32_64)
  then have "(of_nat ITEM_HDR_LEN :: 64 word) \<le> ucast ?d"
    by (simp only: word_le_nat_alt)
  then have "unat ((ucast ?d :: 64 word) - of_nat ITEM_HDR_LEN) = unat (ucast ?d :: 64 word) - unat (of_nat ITEM_HDR_LEN :: 64 word)"
    by (rule unat_sub)
  then have w: "unat ((ucast ?d :: 64 word) - of_nat ITEM_HDR_LEN) = unat ?d - ITEM_HDR_LEN"
    by (simp only: n unat_ucast_32_64)
  have "unat ?d - ITEM_HDR_LEN < 2 ^ 32"
    using unat_32_bound [of ?d] by simp
  then have "take_bit 32 (unat ?d - ITEM_HDR_LEN) = unat ?d - ITEM_HDR_LEN"
    by (rule take_bit_nat_eq_self)
  then have "unat (ucast ((ucast ?d :: 64 word) - of_nat ITEM_HDR_LEN) :: 32 word) = unat ?d - ITEM_HDR_LEN"
    by (simp add: unsigned_ucast_eq w)
  with d show ?thesis by (simp add: taillen_of_def)
qed

subsection \<open>The copy of one record\<close>

lemma le32_append: "off + 4 \<le> length xs \<Longrightarrow> le32 (xs @ ys) off = le32 xs off"
  by (simp add: le32_def)

lemma le32_take_drop:
  "off + 4 \<le> n \<Longrightarrow> le32 (take n (drop p bs)) off = le32 bs (p + off)"
proof -
  assume a: "off + 4 \<le> n"
  have "take 4 (drop off (take n (drop p bs))) = take 4 (take (n - off) (drop off (drop p bs)))"
    by (simp add: drop_take)
  also have "\<dots> = take 4 (drop (p + off) bs)"
    using a by (simp add: min_def add.commute)
  finally show ?thesis by (simp add: le32_def)
qed

lemma load_totallen_ok:
  "unat (readpos h) + ITEM_HDR_LEN \<le> length (data h) \<Longrightarrow>
     load_totallen (data h) (unat (readpos h)) = Inr (totallen_at h)"
  by (simp add: load_totallen_def totallen_at_def ITEM_HDR_LEN_def)

lemma palloc0_scast:
  "palloc0 (scast (len :: 32 word)) =
     (if unat len \<le> 0x3fffffff then Inr (replicate (unat len) 0) else Inl Invalid_alloc_size)"
proof (cases "unat len \<le> 0x3fffffff")
  case True
  then have "unat len < 2 ^ 31" by simp
  then have "unat (scast len :: 64 word) = unat len"
    by (simp add: unat_scast_nonneg sint_nonneg_of_unat)
  with True show ?thesis
    by (simp add: palloc0_def scast_le_MaxAllocSize)
next
  case False
  then show ?thesis by (simp add: palloc0_def scast_le_MaxAllocSize)
qed

lemma memcpy_header:
  assumes "p + ITEM_HDR_LEN \<le> length bs"
  shows "memcpy (replicate n 0) 0 bs p ITEM_HDR_LEN =
     (if ITEM_HDR_LEN \<le> n
      then Inr (take ITEM_HDR_LEN (drop p bs) @ replicate (n - ITEM_HDR_LEN) 0)
      else Inl Out_of_bounds)"
  using assms by (simp add: memcpy_def)

lemma totallen_of_copied_header:
  assumes "unat (readpos h) + ITEM_HDR_LEN \<le> length (data h)"
  shows "totallen (item_fields (take ITEM_HDR_LEN (drop (unat (readpos h)) (data h)) @ zs)) = totallen_at h"
proof -
  have "le32 (take ITEM_HDR_LEN (drop (unat (readpos h)) (data h)) @ zs) 4 =
      le32 (take ITEM_HDR_LEN (drop (unat (readpos h)) (data h))) 4"
    using assms by (intro le32_append) (simp add: ITEM_HDR_LEN_def)
  also have "\<dots> = le32 (data h) (unat (readpos h) + 4)"
    by (rule le32_take_drop) (simp add: ITEM_HDR_LEN_def)
  finally show ?thesis by (simp add: item_fields_def totallen_at_def)
qed

lemma room_for_header:
  assumes "arena_ok h" and "\<not> no_room_for_header h"
  shows "unat (readpos h) + ITEM_HDR_LEN \<le> unat (buffer_size h)"
    and "unat (readpos h) + ITEM_HDR_LEN \<le> length (data h)"
    and "unat (buffer_size h) < 2 ^ 31"
  using assms no_room_for_header_iff [of h] unat_less_of_sint [of "buffer_size h"]
  by (simp_all add: arena_ok_def)

lemma taillen_conversions:
  assumes "arena_ok h" and "\<not> no_room_for_header h"
  shows "unat (scast (taillen_of h) :: 64 word) = unat (buffer_size h) - unat (readpos h) - ITEM_HDR_LEN"
    and "nat (sint (taillen_of h)) = unat (buffer_size h) - unat (readpos h) - ITEM_HDR_LEN"
proof -
  note r = room_for_header [OF assms]
  have t: "unat (taillen_of h) = unat (buffer_size h) - unat (readpos h) - ITEM_HDR_LEN"
    using r(1) by (rule unat_taillen_of)
  with r(3) have lt: "unat (taillen_of h) < 2 ^ 31" by simp
  then have s: "sint (taillen_of h) = int (unat (taillen_of h))" by (rule sint_eq_unat)
  then have "0 \<le> sint (taillen_of h)" by simp
  then have "unat (scast (taillen_of h) :: 64 word) = unat (taillen_of h)"
    by (rule unat_scast_nonneg)
  with t show "unat (scast (taillen_of h) :: 64 word) = unat (buffer_size h) - unat (readpos h) - ITEM_HDR_LEN"
    by simp
  from s have "nat (sint (taillen_of h)) = unat (taillen_of h)" by simp
  with t show "nat (sint (taillen_of h)) = unat (buffer_size h) - unat (readpos h) - ITEM_HDR_LEN"
    by simp
qed

lemma unat_totallen_minus_header:
  assumes "ITEM_HDR_LEN \<le> unat (len :: 32 word)" and "unat len \<le> 0x3fffffff"
  shows "unat ((scast len :: 64 word) - of_nat ITEM_HDR_LEN) = unat len - ITEM_HDR_LEN"
proof -
  from assms(2) have "unat len < 2 ^ 31" by simp
  then have s: "unat (scast len :: 64 word) = unat len"
    by (simp add: unat_scast_nonneg sint_nonneg_of_unat)
  have n: "unat (of_nat ITEM_HDR_LEN :: 64 word) = ITEM_HDR_LEN"
    by (rule unat_of_nat_64) (simp add: ITEM_HDR_LEN_def)
  from assms(1) have "unat (of_nat ITEM_HDR_LEN :: 64 word) \<le> unat (scast len :: 64 word)"
    by (simp only: s n)
  then have "(of_nat ITEM_HDR_LEN :: 64 word) \<le> scast len"
    by (simp only: word_le_nat_alt)
  then have "unat ((scast len :: 64 word) - of_nat ITEM_HDR_LEN) =
      unat (scast len :: 64 word) - unat (of_nat ITEM_HDR_LEN :: 64 word)"
    by (rule unat_sub)
  then show ?thesis by (simp only: s n)
qed

lemma unat_new_readpos:
  assumes "unat (b :: 32 word) \<le> unat (r :: 32 word) + unat (len :: 32 word)"
    and "unat r + unat len < 2 ^ 32"
  shows "unat (r + len - b) = unat r + unat len - unat b"
proof -
  from assms(2) have "unat (r + len) = unat r + unat len" by (rule unat_add_32)
  with assms(1) show ?thesis by (simp add: unat_sub_32)
qed

lemma memcpy_fill:
  assumes "length pre = d"
  shows "memcpy (pre @ replicate k 0) d src s m =
     (if m \<le> k \<and> s + m \<le> length src
      then Inr (pre @ take m (drop s src) @ replicate (k - m) 0)
      else Inl Out_of_bounds)"
  using assms by (auto simp: memcpy_def)

lemma length_take_drop: "s + m \<le> length src \<Longrightarrow> length (take m (drop s src)) = m"
  by simp

text \<open>The block after the header has been copied into it.\<close>

lemma copy_item_start:
  assumes ok: "arena_ok h" and room: "\<not> no_room_for_header h"
    and lo: "ITEM_HDR_LEN \<le> unat (totallen_at h)" and hi: "unat (totallen_at h) \<le> 0x3fffffff"
  shows "load_totallen (data h) (unat (readpos h)) = Inr (totallen_at h)"
    and "palloc0 (scast (totallen_at h)) = Inr (replicate (unat (totallen_at h)) 0)"
    and "memcpy (replicate (unat (totallen_at h)) 0) 0 (data h) (unat (readpos h)) ITEM_HDR_LEN =
      Inr (take ITEM_HDR_LEN (drop (unat (readpos h)) (data h)) @
           replicate (unat (totallen_at h) - ITEM_HDR_LEN) 0)"
    and "totallen (item_fields (take ITEM_HDR_LEN (drop (unat (readpos h)) (data h)) @
           replicate (unat (totallen_at h) - ITEM_HDR_LEN) 0)) = totallen_at h"
proof -
  note r = room_for_header [OF ok room]
  show "load_totallen (data h) (unat (readpos h)) = Inr (totallen_at h)"
    using r(2) by (rule load_totallen_ok)
  show "palloc0 (scast (totallen_at h)) = Inr (replicate (unat (totallen_at h)) 0)"
    using hi by (simp add: palloc0_scast)
  show "memcpy (replicate (unat (totallen_at h)) 0) 0 (data h) (unat (readpos h)) ITEM_HDR_LEN =
      Inr (take ITEM_HDR_LEN (drop (unat (readpos h)) (data h)) @
           replicate (unat (totallen_at h) - ITEM_HDR_LEN) 0)"
    using lo by (simp add: memcpy_header [OF r(2)])
  show "totallen (item_fields (take ITEM_HDR_LEN (drop (unat (readpos h)) (data h)) @
           replicate (unat (totallen_at h) - ITEM_HDR_LEN) 0)) = totallen_at h"
    using r(2) by (rule totallen_of_copied_header)
qed

text \<open>A record that ends before the end of the arena: one copy.\<close>

lemma copy_item_one_part:
  assumes ok: "arena_ok h" and room: "\<not> no_room_for_header h"
    and lo: "ITEM_HDR_LEN \<le> unat (totallen_at h)" and hi: "unat (totallen_at h) \<le> 0x3fffffff"
    and one: "unat (readpos h) + unat (totallen_at h) < unat (buffer_size h)"
  shows "copy_item h c =
     Inr (take ITEM_HDR_LEN (drop (unat (readpos h)) (data h)) @
          take (unat (totallen_at h) - ITEM_HDR_LEN) (drop (unat (readpos h) + ITEM_HDR_LEN) (data h)),
          h\<lparr>readpos := readpos h + totallen_at h\<rparr>, c)"
proof -
  note r = room_for_header [OF ok room]
  note s = copy_item_start [OF ok room lo hi]
  let ?hd = "take ITEM_HDR_LEN (drop (unat (readpos h)) (data h))"
  have len_hd: "length ?hd = ITEM_HDR_LEN" using r(2) by simp
  from r(3) hi have "unat (readpos h) + unat (totallen_at h) < 2 ^ 32" using one by simp
  with one have np: "\<not> two_parts h (totallen_at h)" by (simp add: two_parts_iff)
  have sz: "unat ((scast (totallen_at h) :: 64 word) - of_nat ITEM_HDR_LEN) = unat (totallen_at h) - ITEM_HDR_LEN"
    using lo hi by (rule unat_totallen_minus_header)
  have src: "unat (readpos h) + ITEM_HDR_LEN + (unat (totallen_at h) - ITEM_HDR_LEN) \<le> length (data h)"
    using one lo ok by (simp add: arena_ok_def)
  have cp: "memcpy (?hd @ replicate (unat (totallen_at h) - ITEM_HDR_LEN) 0) ITEM_HDR_LEN (data h)
        (unat (readpos h) + ITEM_HDR_LEN) (unat (totallen_at h) - ITEM_HDR_LEN) =
      Inr (?hd @ take (unat (totallen_at h) - ITEM_HDR_LEN) (drop (unat (readpos h) + ITEM_HDR_LEN) (data h)))"
    using src by (simp add: memcpy_fill [OF len_hd])
  show ?thesis
    using np by (simp add: copy_item_def Let_def s sz cp)
qed

text \<open>A record that reaches the end of the arena: two copies.\<close>

lemma copy_item_two_parts:
  assumes ok: "arena_ok h" and room: "\<not> no_room_for_header h"
    and lo: "ITEM_HDR_LEN \<le> unat (totallen_at h)" and hi: "unat (totallen_at h) \<le> 0x3fffffff"
    and two: "unat (buffer_size h) \<le> unat (readpos h) + unat (totallen_at h)"
  shows "copy_item h c =
     (if unat (readpos h) + unat (totallen_at h) - unat (buffer_size h) \<le> unat (buffer_size h)
      then Inr (take ITEM_HDR_LEN (drop (unat (readpos h)) (data h)) @
                take (unat (buffer_size h) - unat (readpos h) - ITEM_HDR_LEN)
                  (drop (unat (readpos h) + ITEM_HDR_LEN) (data h)) @
                take (unat (readpos h) + unat (totallen_at h) - unat (buffer_size h)) (data h),
                h\<lparr>readpos := readpos h + totallen_at h - buffer_size h\<rparr>,
                c\<lparr>wraparound := False\<rparr>)
      else Inl Out_of_bounds)"
proof -
  note r = room_for_header [OF ok room]
  note s = copy_item_start [OF ok room lo hi]
  note t = taillen_conversions [OF ok room]
  let ?rp = "unat (readpos h)" and ?bs = "unat (buffer_size h)" and ?n = "unat (totallen_at h)"
  let ?hd = "take ITEM_HDR_LEN (drop ?rp (data h))"
  let ?tail = "take (?bs - ?rp - ITEM_HDR_LEN) (drop (?rp + ITEM_HDR_LEN) (data h))"
  have len: "length (data h) = ?bs" using ok by (simp add: arena_ok_def)
  have len_hd: "length ?hd = ITEM_HDR_LEN" using r(2) by simp
  have len_tail: "length ?tail = ?bs - ?rp - ITEM_HDR_LEN" using r(1) len by simp
  have len_pre: "length (?hd @ ?tail) = ITEM_HDR_LEN + (?bs - ?rp - ITEM_HDR_LEN)"
    using len_hd len_tail by simp
  from r(3) hi r(1) have sum: "?rp + ?n < 2 ^ 32" by simp
  with two have tp: "two_parts h (totallen_at h)" by (simp add: two_parts_iff)
  have new: "unat (readpos h + totallen_at h - buffer_size h) = ?rp + ?n - ?bs"
    using two sum by (rule unat_new_readpos)
  let ?new = "?rp + ?n - ?bs"
  let ?t = "?bs - ?rp - ITEM_HDR_LEN"
  let ?h' = "h\<lparr>readpos := readpos h + totallen_at h - buffer_size h\<rparr>"
  have A: "copy_item h c =
      (case memcpy (?hd @ replicate (?n - ITEM_HDR_LEN) 0) ITEM_HDR_LEN (data h) (?rp + ITEM_HDR_LEN) ?t of
         Inl e \<Rightarrow> Inl e
       | Inr item2 \<Rightarrow>
           (case memcpy item2 (ITEM_HDR_LEN + ?t) (data h) 0 ?new of
              Inl e \<Rightarrow> Inl e
            | Inr item3 \<Rightarrow> Inr (item3, ?h', c\<lparr>wraparound := False\<rparr>)))"
    using tp by (simp add: copy_item_def Let_def s t new cong del: sum.case_cong_weak)
  have cp1: "memcpy (?hd @ replicate (?n - ITEM_HDR_LEN) 0) ITEM_HDR_LEN (data h) (?rp + ITEM_HDR_LEN) ?t =
      Inr ((?hd @ ?tail) @ replicate ?new 0)"
  proof -
    have a1: "?t \<le> ?n - ITEM_HDR_LEN" using two r(1) lo by arith
    have a2: "?n - ITEM_HDR_LEN - ?t = ?new" using two r(1) lo by arith
    have a3: "?rp + ITEM_HDR_LEN + ?t \<le> length (data h)" using r(1) len by arith
    show ?thesis
      by (simp only: memcpy_fill [OF len_hd] a1 a2 a3 simp_thms if_True append_assoc)
  qed
  have cp2: "memcpy ((?hd @ ?tail) @ replicate ?new 0) (ITEM_HDR_LEN + ?t) (data h) 0 ?new =
      (if ?new \<le> ?bs then Inr (?hd @ ?tail @ take ?new (data h)) else Inl Out_of_bounds)"
    by (subst memcpy_fill [OF len_pre]) (simp add: len)
  have "copy_item h c =
      (case (if ?new \<le> ?bs then Inr (?hd @ ?tail @ take ?new (data h)) else Inl Out_of_bounds) of
         Inl e \<Rightarrow> Inl e
       | Inr item3 \<Rightarrow> Inr (item3, ?h', c\<lparr>wraparound := False\<rparr>))"
    by (simp only: A cp1 sum.case cp2)
  then show ?thesis by simp
qed

text \<open>A length that cannot be allocated, or that does not even cover the header.\<close>

lemma copy_item_too_long:
  assumes ok: "arena_ok h" and room: "\<not> no_room_for_header h"
    and hi: "0x3fffffff < unat (totallen_at h)"
  shows "copy_item h c = Inl Invalid_alloc_size"
proof -
  note r = room_for_header [OF ok room]
  have "load_totallen (data h) (unat (readpos h)) = Inr (totallen_at h)"
    using r(2) by (rule load_totallen_ok)
  moreover have "palloc0 (scast (totallen_at h)) = Inl Invalid_alloc_size"
    using hi by (simp add: palloc0_scast)
  ultimately show ?thesis by (simp add: copy_item_def)
qed

lemma copy_item_too_short:
  assumes ok: "arena_ok h" and room: "\<not> no_room_for_header h"
    and lo: "unat (totallen_at h) < ITEM_HDR_LEN"
  shows "copy_item h c = Inl Out_of_bounds"
proof -
  note r = room_for_header [OF ok room]
  have "load_totallen (data h) (unat (readpos h)) = Inr (totallen_at h)"
    using r(2) by (rule load_totallen_ok)
  moreover have "palloc0 (scast (totallen_at h)) = Inr (replicate (unat (totallen_at h)) 0)"
    using lo by (simp add: palloc0_scast ITEM_HDR_LEN_def)
  moreover have "memcpy (replicate (unat (totallen_at h)) 0) 0 (data h) (unat (readpos h)) ITEM_HDR_LEN =
      Inl Out_of_bounds"
    using lo by (simp add: memcpy_header [OF r(2)])
  ultimately show ?thesis by (simp add: copy_item_def)
qed

text \<open>Every way in which the copy of a record succeeds.\<close>

lemma copy_item_Inr:
  assumes ok: "arena_ok h" and room: "\<not> no_room_for_header h"
    and res: "copy_item h c = Inr (item, h', c')"
  shows "ITEM_HDR_LEN \<le> unat (totallen_at h) \<and> unat (totallen_at h) \<le> 0x3fffffff \<and>
    (if unat (buffer_size h) \<le> unat (readpos h) + unat (totallen_at h)
     then unat (readpos h) + unat (totallen_at h) - unat (buffer_size h) \<le> unat (buffer_size h) \<and>
          item = take ITEM_HDR_LEN (drop (unat (readpos h)) (data h)) @
                 take (unat (buffer_size h) - unat (readpos h) - ITEM_HDR_LEN)
                   (drop (unat (readpos h) + ITEM_HDR_LEN) (data h)) @
                 take (unat (readpos h) + unat (totallen_at h) - unat (buffer_size h)) (data h) \<and>
          h' = h\<lparr>readpos := readpos h + totallen_at h - buffer_size h\<rparr> \<and>
          c' = c\<lparr>wraparound := False\<rparr>
     else item = take ITEM_HDR_LEN (drop (unat (readpos h)) (data h)) @
                 take (unat (totallen_at h) - ITEM_HDR_LEN)
                   (drop (unat (readpos h) + ITEM_HDR_LEN) (data h)) \<and>
          h' = h\<lparr>readpos := readpos h + totallen_at h\<rparr> \<and> c' = c)"
proof -
  have hi: "unat (totallen_at h) \<le> 0x3fffffff"
  proof (rule ccontr)
    assume "\<not> unat (totallen_at h) \<le> 0x3fffffff"
    then have "copy_item h c = Inl Invalid_alloc_size"
      using copy_item_too_long [OF ok room] by simp
    with res show False by simp
  qed
  have lo: "ITEM_HDR_LEN \<le> unat (totallen_at h)"
  proof (rule ccontr)
    assume "\<not> ITEM_HDR_LEN \<le> unat (totallen_at h)"
    then have "copy_item h c = Inl Out_of_bounds"
      using copy_item_too_short [OF ok room] by simp
    with res show False by simp
  qed
  show ?thesis
  proof (cases "unat (buffer_size h) \<le> unat (readpos h) + unat (totallen_at h)")
    case True
    from copy_item_two_parts [OF ok room lo hi True, of c] res True lo hi
    show ?thesis by (simp split: if_splits)
  next
    case False
    then have "unat (readpos h) + unat (totallen_at h) < unat (buffer_size h)" by simp
    from copy_item_one_part [OF ok room lo hi this, of c] res False lo hi
    show ?thesis by simp
  qed
qed

lemma arena_split_facts:
  "arena_ok arena_split" "\<not> no_room_for_header arena_split"
  "totallen_at arena_split = 36" "readpos arena_split = 32" "buffer_size arena_split = 64"
  by (simp_all add: arena_split_def arena_ok_def no_room_for_header_def ITEM_HDR_LEN_def
      totallen_at_def le32_def sample_header_def)

lemma arena_full_facts:
  "arena_ok arena_full" "\<not> no_room_for_header arena_full"
  "totallen_at arena_full = 32" "readpos arena_full = 32" "buffer_size arena_full = 64"
  by (simp_all add: arena_full_def arena_ok_def no_room_for_header_def ITEM_HDR_LEN_def
      totallen_at_def le32_def sample_record_def sample_header_def)

lemma arena_two_facts:
  "arena_ok arena_two" "\<not> no_room_for_header arena_two"
  "totallen_at arena_two = 32" "readpos arena_two = 0" "buffer_size arena_two = 96"
  by (simp_all add: arena_two_def arena_ok_def no_room_for_header_def ITEM_HDR_LEN_def
      totallen_at_def le32_def sample_record_def sample_header_def)

lemma copy_item_arena_full:
  "copy_item arena_full ctx_full =
     Inr (sample_record, arena_full\<lparr>readpos := 0\<rparr>, ctx_full\<lparr>wraparound := False\<rparr>)"
proof -
  have "copy_item arena_full ctx_full =
      Inr (take ITEM_HDR_LEN (drop 32 (data arena_full)) @
           take (64 - 32 - ITEM_HDR_LEN) (drop (32 + ITEM_HDR_LEN) (data arena_full)) @
           take (32 + 32 - 64) (data arena_full),
           arena_full\<lparr>readpos := 32 + 32 - 64\<rparr>, ctx_full\<lparr>wraparound := False\<rparr>)"
    using copy_item_two_parts [OF arena_full_facts(1,2), of ctx_full]
    by (simp add: arena_full_facts ITEM_HDR_LEN_def)
  moreover have "data arena_full = sample_record @ sample_record"
    by (simp add: arena_full_def)
  moreover have "length sample_record = 32"
    by (simp add: sample_record_def sample_header_def)
  ultimately show ?thesis by (simp add: ITEM_HDR_LEN_def)
qed

subsection \<open>One drain step\<close>

text \<open>
  C1 (as amended). Take a well-formed store with room for a header at the read cursor,
  and a record there whose total length covers the header, does not exceed the size of
  the arena and can be allocated. The record is copied in two parts exactly when
  \<open>readpos + totallen\<close> reaches or exceeds \<open>buffer_size\<close>. In that case the block
  is the header, then \<open>buffer_size - readpos - ITEM_HDR_LEN\<close> payload bytes from the
  tail of the arena, then the remaining \<open>totallen - ITEM_HDR_LEN\<close> minus that many bytes
  from its start; the session flag is cleared and the read cursor becomes
  \<open>(readpos + totallen) mod buffer_size\<close>. Otherwise the payload is copied in one
  piece and the read cursor becomes \<open>readpos + totallen\<close>, which is below
  \<open>buffer_size\<close>.
\<close>

theorem record_split_at_arena_end:
  assumes ok: "arena_ok h" and room: "\<not> no_room_for_header h"
    and lo: "ITEM_HDR_LEN \<le> unat (totallen_at h)"
    and hi: "unat (totallen_at h) \<le> unat (buffer_size h)"
    and alloc: "unat (totallen_at h) \<le> 0x3fffffff"
  shows "(two_parts h (totallen_at h) \<longleftrightarrow>
           unat (buffer_size h) \<le> unat (readpos h) + unat (totallen_at h)) \<and>
    (unat (buffer_size h) \<le> unat (readpos h) + unat (totallen_at h) \<longrightarrow>
       copy_item h c =
         Inr (take ITEM_HDR_LEN (drop (unat (readpos h)) (data h)) @
              take (unat (buffer_size h) - unat (readpos h) - ITEM_HDR_LEN)
                (drop (unat (readpos h) + ITEM_HDR_LEN) (data h)) @
              take (unat (totallen_at h) - ITEM_HDR_LEN -
                    (unat (buffer_size h) - unat (readpos h) - ITEM_HDR_LEN)) (data h),
              h\<lparr>readpos := readpos h + totallen_at h - buffer_size h\<rparr>,
              c\<lparr>wraparound := False\<rparr>) \<and>
       unat (readpos h + totallen_at h - buffer_size h) =
         (unat (readpos h) + unat (totallen_at h)) mod unat (buffer_size h)) \<and>
    (unat (readpos h) + unat (totallen_at h) < unat (buffer_size h) \<longrightarrow>
       copy_item h c =
         Inr (take ITEM_HDR_LEN (drop (unat (readpos h)) (data h)) @
              take (unat (totallen_at h) - ITEM_HDR_LEN)
                (drop (unat (readpos h) + ITEM_HDR_LEN) (data h)),
              h\<lparr>readpos := readpos h + totallen_at h\<rparr>, c) \<and>
       unat (readpos h + totallen_at h) = unat (readpos h) + unat (totallen_at h))"
proof (intro conjI impI)
  note r = room_for_header [OF ok room]
  from r(1,3) alloc have sum: "unat (readpos h) + unat (totallen_at h) < 2 ^ 32" by simp
  show "two_parts h (totallen_at h) \<longleftrightarrow>
      unat (buffer_size h) \<le> unat (readpos h) + unat (totallen_at h)"
    using sum by (rule two_parts_iff)
  {
    assume two: "unat (buffer_size h) \<le> unat (readpos h) + unat (totallen_at h)"
    have rest: "unat (totallen_at h) - ITEM_HDR_LEN -
        (unat (buffer_size h) - unat (readpos h) - ITEM_HDR_LEN) =
        unat (readpos h) + unat (totallen_at h) - unat (buffer_size h)"
      using two r(1) lo by arith
    have fits: "unat (readpos h) + unat (totallen_at h) - unat (buffer_size h) \<le> unat (buffer_size h)"
      using hi r(1) by arith
    show "copy_item h c =
         Inr (take ITEM_HDR_LEN (drop (unat (readpos h)) (data h)) @
              take (unat (buffer_size h) - unat (readpos h) - ITEM_HDR_LEN)
                (drop (unat (readpos h) + ITEM_HDR_LEN) (data h)) @
              take (unat (totallen_at h) - ITEM_HDR_LEN -
                    (unat (buffer_size h) - unat (readpos h) - ITEM_HDR_LEN)) (data h),
              h\<lparr>readpos := readpos h + totallen_at h - buffer_size h\<rparr>,
              c\<lparr>wraparound := False\<rparr>)"
      unfolding rest using copy_item_two_parts [OF ok room lo alloc two, of c] fits
      by (simp only: if_True)
    have new: "unat (readpos h + totallen_at h - buffer_size h) =
        unat (readpos h) + unat (totallen_at h) - unat (buffer_size h)"
      using two sum by (rule unat_new_readpos)
    have lt: "unat (readpos h) + unat (totallen_at h) - unat (buffer_size h) < unat (buffer_size h)"
      using hi r(1) by (simp add: ITEM_HDR_LEN_def)
    have "(unat (readpos h) + unat (totallen_at h)) mod unat (buffer_size h) =
        (unat (readpos h) + unat (totallen_at h) - unat (buffer_size h)) mod unat (buffer_size h)"
      using two by (rule le_mod_geq)
    also have "\<dots> = unat (readpos h) + unat (totallen_at h) - unat (buffer_size h)"
      using lt by (rule mod_less)
    finally show "unat (readpos h + totallen_at h - buffer_size h) =
        (unat (readpos h) + unat (totallen_at h)) mod unat (buffer_size h)"
      using new by simp
  }
  {
    assume one: "unat (readpos h) + unat (totallen_at h) < unat (buffer_size h)"
    show "copy_item h c =
         Inr (take ITEM_HDR_LEN (drop (unat (readpos h)) (data h)) @
              take (unat (totallen_at h) - ITEM_HDR_LEN)
                (drop (unat (readpos h) + ITEM_HDR_LEN) (data h)),
              h\<lparr>readpos := readpos h + totallen_at h\<rparr>, c)"
      using ok room lo alloc one by (rule copy_item_one_part)
    show "unat (readpos h + totallen_at h) = unat (readpos h) + unat (totallen_at h)"
      using sum by (rule unat_add_32)
  }
qed

theorem record_split_at_arena_end_witness:
  "arena_ok arena_split \<and> \<not> no_room_for_header arena_split \<and>
   ITEM_HDR_LEN \<le> unat (totallen_at arena_split) \<and>
   unat (totallen_at arena_split) \<le> unat (buffer_size arena_split) \<and>
   unat (totallen_at arena_split) \<le> 0x3fffffff \<and>
   unat (buffer_size arena_split) \<le> unat (readpos arena_split) + unat (totallen_at arena_split) \<and>
   two_parts arena_split (totallen_at arena_split) \<and>
   copy_item arena_split ctx_split =
     Inr (sample_header 36 8 @ [0x61, 0x62, 0x63, 0x64] @ [0x65, 0x66, 0x67, 0],
          arena_split\<lparr>readpos := 4\<rparr>, ctx_split\<lparr>wraparound := False\<rparr>) \<and>
   arena_ok arena_two \<and> \<not> no_room_for_header arena_two \<and>
   ITEM_HDR_LEN \<le> unat (totallen_at arena_two) \<and>
   unat (totallen_at arena_two) \<le> unat (buffer_size arena_two) \<and>
   unat (totallen_at arena_two) \<le> 0x3fffffff \<and>
   unat (readpos arena_two) + unat (totallen_at arena_two) < unat (buffer_size arena_two) \<and>
   \<not> two_parts arena_two (totallen_at arena_two) \<and>
   copy_item arena_two ctx_full =
     Inr (sample_record, arena_two\<lparr>readpos := 32\<rparr>, ctx_full)"
proof -
  have hs: "ITEM_HDR_LEN \<le> unat (totallen_at arena_split)"
    "unat (totallen_at arena_split) \<le> unat (buffer_size arena_split)"
    "unat (totallen_at arena_split) \<le> 0x3fffffff"
    "unat (buffer_size arena_split) \<le> unat (readpos arena_split) + unat (totallen_at arena_split)"
    by (simp_all add: arena_split_facts ITEM_HDR_LEN_def)
  have ht: "ITEM_HDR_LEN \<le> unat (totallen_at arena_two)"
    "unat (totallen_at arena_two) \<le> unat (buffer_size arena_two)"
    "unat (totallen_at arena_two) \<le> 0x3fffffff"
    "unat (readpos arena_two) + unat (totallen_at arena_two) < unat (buffer_size arena_two)"
    by (simp_all add: arena_two_facts ITEM_HDR_LEN_def)
  note s = record_split_at_arena_end [OF arena_split_facts(1,2) hs(1,2,3), of ctx_split]
  note t = record_split_at_arena_end [OF arena_two_facts(1,2) ht(1,2,3), of ctx_full]
  have ds: "data arena_split =
      [0x65, 0x66, 0x67, 0] @ replicate 28 0 @ sample_header 36 8 @ [0x61, 0x62, 0x63, 0x64]"
    by (simp add: arena_split_def)
  have dt: "data arena_two = sample_record @ sample_record @ replicate 32 0"
    by (simp add: arena_two_def)
  have ls: "length (sample_header 36 8) = 28" "length sample_record = 32"
    by (simp_all add: sample_record_def sample_header_def)
  from s hs(4) have s1: "two_parts arena_split (totallen_at arena_split)" by blast
  from s hs(4) have "copy_item arena_split ctx_split =
      Inr (take ITEM_HDR_LEN (drop (unat (readpos arena_split)) (data arena_split)) @
           take (unat (buffer_size arena_split) - unat (readpos arena_split) - ITEM_HDR_LEN)
             (drop (unat (readpos arena_split) + ITEM_HDR_LEN) (data arena_split)) @
           take (unat (totallen_at arena_split) - ITEM_HDR_LEN -
                 (unat (buffer_size arena_split) - unat (readpos arena_split) - ITEM_HDR_LEN))
             (data arena_split),
           arena_split\<lparr>readpos := readpos arena_split + totallen_at arena_split - buffer_size arena_split\<rparr>,
           ctx_split\<lparr>wraparound := False\<rparr>)" by blast
  then have s2: "copy_item arena_split ctx_split =
     Inr (sample_header 36 8 @ [0x61, 0x62, 0x63, 0x64] @ [0x65, 0x66, 0x67, 0],
          arena_split\<lparr>readpos := 4\<rparr>, ctx_split\<lparr>wraparound := False\<rparr>)"
    by (simp add: arena_split_facts ITEM_HDR_LEN_def ds ls)
  from t ht(4) have t1: "\<not> two_parts arena_two (totallen_at arena_two)" by simp
  from t ht(4) have "copy_item arena_two ctx_full =
      Inr (take ITEM_HDR_LEN (drop (unat (readpos arena_two)) (data arena_two)) @
           take (unat (totallen_at arena_two) - ITEM_HDR_LEN)
             (drop (unat (readpos arena_two) + ITEM_HDR_LEN) (data arena_two)),
           arena_two\<lparr>readpos := readpos arena_two + totallen_at arena_two\<rparr>, ctx_full)" by blast
  then have t2: "copy_item arena_two ctx_full =
     Inr (sample_record, arena_two\<lparr>readpos := 32\<rparr>, ctx_full)"
    by (simp add: arena_two_facts ITEM_HDR_LEN_def dt ls)
  from arena_split_facts(1,2) arena_two_facts(1,2) hs ht s1 s2 t1 t2 show ?thesis
    by (intro conjI)
qed

text \<open>
  C1 as stated fails where the record ends exactly at the end of the arena: there
  \<open>readpos + totallen\<close> does not exceed \<open>buffer_size\<close>, and yet the step takes the
  two-part branch, clears the session flag and leaves the read cursor at 0 instead of
  \<open>readpos + totallen\<close>.
\<close>

theorem record_split_at_arena_end_counterexample:
  "unat (readpos arena_full) + unat (totallen_at arena_full) = unat (buffer_size arena_full) \<and>
   \<not> unat (buffer_size arena_full) < unat (readpos arena_full) + unat (totallen_at arena_full) \<and>
   two_parts arena_full (totallen_at arena_full) \<and>
   wraparound ctx_full \<and>
   copy_item arena_full ctx_full =
     Inr (sample_record, arena_full\<lparr>readpos := 0\<rparr>, ctx_full\<lparr>wraparound := False\<rparr>) \<and>
   readpos arena_full + totallen_at arena_full = 64"
  using copy_item_arena_full
  by (simp add: arena_full_facts two_parts_def ctx_full_def)

subsection \<open>The loop of one call\<close>

lemma loop_done: "\<not> loop_cond h c \<Longrightarrow> get_logged_data_loop h c = Some (Inr (None, LWLockRelease h, c))"
  by (subst get_logged_data_loop.simps) simp

lemma loop_emit:
  "loop_cond h c \<Longrightarrow> \<not> no_room_for_header h \<Longrightarrow> get_logged_data_loop h c = Some (emit h c)"
  by (subst get_logged_data_loop.simps) (simp add: emit_def)

lemma loop_continue:
  "loop_cond h c \<Longrightarrow> no_room_for_header h \<Longrightarrow>
     get_logged_data_loop h c = get_logged_data_loop (h\<lparr>readpos := 0\<rparr>) (c\<lparr>wraparound := False\<rparr>)"
  by (subst get_logged_data_loop.simps) simp

lemma stuck_step: "stuck h c \<Longrightarrow> stuck (h\<lparr>readpos := 0\<rparr>) (c\<lparr>wraparound := False\<rparr>)"
  by (simp add: stuck_def)

lemma loop_Some_not_stuck:
  assumes "get_logged_data_loop h c = Some y"
  shows "\<not> stuck h c"
  using assms
proof (rule get_logged_data_loop.raw_induct [rotated])
  fix f h c y
  assume ih: "\<And>h c y. f h c = Some y \<Longrightarrow> \<not> stuck h c"
    and eq: "(if loop_cond h c
      then if no_room_for_header h
           then f (h\<lparr>readpos := 0\<rparr>) (c\<lparr>wraparound := False\<rparr>)
           else Some (emit h c)
      else Some (Inr (None, LWLockRelease h, c))) = Some y"
  show "\<not> stuck h c"
  proof
    assume s: "stuck h c"
    then have "loop_cond h c" "no_room_for_header h" by (simp_all add: stuck_def)
    with eq have "f (h\<lparr>readpos := 0\<rparr>) (c\<lparr>wraparound := False\<rparr>) = Some y" by simp
    then have "\<not> stuck (h\<lparr>readpos := 0\<rparr>) (c\<lparr>wraparound := False\<rparr>)" by (rule ih)
    with stuck_step [OF s] show False by simp
  qed
qed

lemma loop_stuck: "stuck h c \<Longrightarrow> get_logged_data_loop h c = None"
  using loop_Some_not_stuck [of h c] by (cases "get_logged_data_loop h c") auto

text \<open>The loop turns at most twice before it returns, unless it turns for ever.\<close>

lemma loop_unfolded:
  "get_logged_data_loop h c =
     (if \<not> loop_cond h c then Some (Inr (None, LWLockRelease h, c))
      else if \<not> no_room_for_header h then Some (emit h c)
      else if \<not> loop_cond (h\<lparr>readpos := 0\<rparr>) (c\<lparr>wraparound := False\<rparr>)
        then Some (Inr (None, LWLockRelease (h\<lparr>readpos := 0\<rparr>), c\<lparr>wraparound := False\<rparr>))
      else if \<not> no_room_for_header (h\<lparr>readpos := 0\<rparr>)
        then Some (emit (h\<lparr>readpos := 0\<rparr>) (c\<lparr>wraparound := False\<rparr>))
      else None)"
proof (cases "loop_cond h c")
  case False
  then show ?thesis by (simp add: loop_done)
next
  case lc: True
  show ?thesis
  proof (cases "no_room_for_header h")
    case False
    with lc show ?thesis by (simp add: loop_emit)
  next
    case nr: True
    let ?h = "h\<lparr>readpos := 0\<rparr>" and ?c = "c\<lparr>wraparound := False\<rparr>"
    have step: "get_logged_data_loop h c = get_logged_data_loop ?h ?c"
      using lc nr by (rule loop_continue)
    show ?thesis
    proof (cases "loop_cond ?h ?c")
      case False
      with lc nr step show ?thesis by (simp add: loop_done)
    next
      case lc0: True
      show ?thesis
      proof (cases "no_room_for_header ?h")
        case False
        with lc nr lc0 step show ?thesis by (simp add: loop_emit)
      next
        case True
        with lc nr lc0 have "stuck h c" by (simp add: stuck_def)
        then have "get_logged_data_loop h c = None" by (rule loop_stuck)
        with lc nr lc0 True show ?thesis by simp
      qed
    qed
  qed
qed

subsection \<open>Rows\<close>

lemma form_row_position: "form_row item p = Inr row \<Longrightarrow> position row = p"
  by (auto simp: form_row_def Let_def split: sum.splits if_splits)

lemma next_row_Inr:
  assumes "next_row h c = Inr (row, h', c')"
  shows "\<exists>item. copy_item h c = Inr (item, h', c') \<and> form_row item (readpos h) = Inr row"
    and "position row = readpos h"
proof -
  from assms show 1: "\<exists>item. copy_item h c = Inr (item, h', c') \<and> form_row item (readpos h) = Inr row"
    by (auto simp: next_row_def Let_def split: sum.splits prod.splits)
  then show "position row = readpos h" by (auto dest: form_row_position)
qed

lemma emit_Some_row:
  "emit h c = Inr (Some row, h', c') \<longleftrightarrow> next_row h c = Inr (row, h', c')"
  by (auto simp: emit_def split: sum.splits prod.splits)

lemma emit_not_done: "emit h c \<noteq> Inr (None, h', c')"
  by (auto simp: emit_def split: sum.splits prod.splits)

lemma form_row_sample_record: "form_row sample_record p = Inr (sample_row p)"
  by (simp add: form_row_def sample_record_def sample_header_def sample_row_def item_fields_def
      le32_def ITEM_HDR_LEN_def cstring_at_def Let_def)

lemma arena_tail_facts:
  "arena_ok arena_tail" "no_room_for_header arena_tail"
  "readpos arena_tail = 40" "buffer_size arena_tail = 64"
  "arena_ok (arena_tail\<lparr>readpos := 0\<rparr>)" "\<not> no_room_for_header (arena_tail\<lparr>readpos := 0\<rparr>)"
  "totallen_at (arena_tail\<lparr>readpos := 0\<rparr>) = 32"
  by (simp_all add: arena_tail_def arena_ok_def no_room_for_header_def ITEM_HDR_LEN_def
      totallen_at_def le32_def sample_record_def sample_header_def)

lemma next_row_arena_tail:
  "next_row (arena_tail\<lparr>readpos := 0\<rparr>) (ctx_tail\<lparr>wraparound := False\<rparr>) =
     Inr (sample_row 0, arena_tail\<lparr>readpos := 32\<rparr>, ctx_tail\<lparr>wraparound := False\<rparr>)"
proof -
  let ?h = "arena_tail\<lparr>readpos := 0\<rparr>"
  have d: "data ?h = sample_record @ replicate 32 0" by (simp add: arena_tail_def)
  have l: "length sample_record = 32" by (simp add: sample_record_def sample_header_def)
  have a: "ITEM_HDR_LEN \<le> unat (totallen_at ?h)" "unat (totallen_at ?h) \<le> 0x3fffffff"
    by (simp_all add: arena_tail_facts(7) ITEM_HDR_LEN_def)
  have b: "unat (readpos ?h) + unat (totallen_at ?h) < unat (buffer_size ?h)"
    by (simp add: arena_tail_facts(4,7))
  have "copy_item ?h (ctx_tail\<lparr>wraparound := False\<rparr>) =
      Inr (take ITEM_HDR_LEN (drop (unat (readpos ?h)) (data ?h)) @
           take (unat (totallen_at ?h) - ITEM_HDR_LEN) (drop (unat (readpos ?h) + ITEM_HDR_LEN) (data ?h)),
           ?h\<lparr>readpos := readpos ?h + totallen_at ?h\<rparr>, ctx_tail\<lparr>wraparound := False\<rparr>)"
    by (rule copy_item_one_part [OF arena_tail_facts(5,6) a b])
  then have "copy_item ?h (ctx_tail\<lparr>wraparound := False\<rparr>) =
      Inr (sample_record, arena_tail\<lparr>readpos := 32\<rparr>, ctx_tail\<lparr>wraparound := False\<rparr>)"
    by (simp add: arena_tail_facts(7) d l ITEM_HDR_LEN_def)
  then show ?thesis by (simp add: next_row_def form_row_sample_record)
qed

text \<open>
  C3. Inside the loop (its condition holds), when \<open>readpos + ITEM_HDR_LEN\<close> exceeds
  \<open>buffer_size\<close> the call goes on exactly as from the store with \<open>readpos = 0\<close> and
  the session flag cleared, the loop condition being evaluated again there: the session
  ends without a row when the snapshot is 0, and otherwise the next record is the one at
  offset 0 (no call returns if the arena is too small for any header). No row is emitted
  for the bytes between the old read cursor and the end of the arena: a row that the call
  returns has position 0.
\<close>

theorem physical_wrap_skips_tail:
  assumes ok: "arena_ok h" and lc: "loop_cond h c"
    and nr: "unat (buffer_size h) < unat (readpos h) + ITEM_HDR_LEN"
  shows "get_logged_data_loop h c =
      get_logged_data_loop (h\<lparr>readpos := 0\<rparr>) (c\<lparr>wraparound := False\<rparr>) \<and>
    get_logged_data_loop h c =
      (if until c = 0
       then Some (Inr (None, LWLockRelease (h\<lparr>readpos := 0\<rparr>), c\<lparr>wraparound := False\<rparr>))
       else if unat (buffer_size h) < ITEM_HDR_LEN then None
       else Some (emit (h\<lparr>readpos := 0\<rparr>) (c\<lparr>wraparound := False\<rparr>))) \<and>
    (\<forall>row h' c'. get_logged_data_loop h c = Some (Inr (Some row, h', c')) \<longrightarrow> position row = 0)"
proof -
  let ?h = "h\<lparr>readpos := 0\<rparr>" and ?c = "c\<lparr>wraparound := False\<rparr>"
  from ok nr have nr': "no_room_for_header h" by (simp add: no_room_for_header_iff)
  have ok0: "arena_ok ?h" using ok by (simp add: arena_ok_def)
  have lc0: "loop_cond ?h ?c \<longleftrightarrow> until c \<noteq> 0"
    by (simp add: loop_cond_def word_greater_zero_iff)
  have nr0: "no_room_for_header ?h \<longleftrightarrow> unat (buffer_size h) < ITEM_HDR_LEN"
    using no_room_for_header_iff [OF ok0] by simp
  have 1: "get_logged_data_loop h c = get_logged_data_loop ?h ?c"
    using lc nr' by (rule loop_continue)
  have 2: "get_logged_data_loop h c =
      (if until c = 0 then Some (Inr (None, LWLockRelease ?h, ?c))
       else if unat (buffer_size h) < ITEM_HDR_LEN then None
       else Some (emit ?h ?c))"
    using lc nr' lc0 nr0 by (subst loop_unfolded) simp
  have 3: "position row = 0" if "get_logged_data_loop h c = Some (Inr (Some row, h', c'))" for row h' c'
  proof -
    from that 2 have "emit ?h ?c = Inr (Some row, h', c')"
      by (simp split: if_splits)
    then have "next_row ?h ?c = Inr (row, h', c')" by (simp add: emit_Some_row)
    then have "position row = readpos ?h" by (rule next_row_Inr(2))
    then show ?thesis by simp
  qed
  from 1 2 3 show ?thesis by blast
qed

theorem physical_wrap_skips_tail_witness:
  "arena_ok arena_tail \<and> loop_cond arena_tail ctx_tail \<and>
   unat (buffer_size arena_tail) < unat (readpos arena_tail) + ITEM_HDR_LEN \<and>
   get_logged_data_loop arena_tail ctx_tail =
     Some (Inr (Some (sample_row 0), arena_tail\<lparr>readpos := 32\<rparr>, ctx_tail\<lparr>wraparound := False\<rparr>)) \<and>
   position (sample_row 0) = 0"
proof -
  have lc: "loop_cond arena_tail ctx_tail"
    by (simp add: loop_cond_def arena_tail_def ctx_tail_def)
  have nr: "unat (buffer_size arena_tail) < unat (readpos arena_tail) + ITEM_HDR_LEN"
    by (simp add: arena_tail_facts ITEM_HDR_LEN_def)
  note w = physical_wrap_skips_tail [OF arena_tail_facts(1) lc nr]
  have u: "until ctx_tail \<noteq> 0" "\<not> unat (buffer_size arena_tail) < ITEM_HDR_LEN"
    by (simp_all add: ctx_tail_def arena_tail_facts ITEM_HDR_LEN_def)
  from w have "get_logged_data_loop arena_tail ctx_tail =
      (if until ctx_tail = 0
       then Some (Inr (None, LWLockRelease (arena_tail\<lparr>readpos := 0\<rparr>), ctx_tail\<lparr>wraparound := False\<rparr>))
       else if unat (buffer_size arena_tail) < ITEM_HDR_LEN then None
       else Some (emit (arena_tail\<lparr>readpos := 0\<rparr>) (ctx_tail\<lparr>wraparound := False\<rparr>)))"
    by (rule conjunct1 [OF conjunct2])
  with u have "get_logged_data_loop arena_tail ctx_tail =
      Some (emit (arena_tail\<lparr>readpos := 0\<rparr>) (ctx_tail\<lparr>wraparound := False\<rparr>))"
    by simp
  then have r: "get_logged_data_loop arena_tail ctx_tail =
     Some (Inr (Some (sample_row 0), arena_tail\<lparr>readpos := 32\<rparr>, ctx_tail\<lparr>wraparound := False\<rparr>))"
    by (simp add: emit_def next_row_arena_tail)
  with w have "position (sample_row 0) = 0" by blast
  with arena_tail_facts(1) lc nr r show ?thesis by blast
qed

subsection \<open>Calls and sessions\<close>

lemma copy_item_frame:
  assumes "copy_item h c = Inr (item, h', c')"
  shows "data h' = data h" "buffer_size h' = buffer_size h" "hdr_lock h' = hdr_lock h"
    "endpos h' = endpos h" "LoggingShmemHdr.wraparound h' = LoggingShmemHdr.wraparound h"
    "until c' = until c" "startpos c' = startpos c"
  using assms
  by (auto simp: copy_item_def Let_def split: sum.splits if_splits)

lemma next_row_frame:
  assumes "next_row h c = Inr (row, h', c')"
  shows "data h' = data h" "buffer_size h' = buffer_size h" "hdr_lock h' = hdr_lock h"
    "endpos h' = endpos h" "LoggingShmemHdr.wraparound h' = LoggingShmemHdr.wraparound h"
    "until c' = until c" "startpos c' = startpos c"
proof -
  from next_row_Inr(1) [OF assms] obtain item where "copy_item h c = Inr (item, h', c')"
    by blast
  then show "data h' = data h" "buffer_size h' = buffer_size h" "hdr_lock h' = hdr_lock h"
    "endpos h' = endpos h" "LoggingShmemHdr.wraparound h' = LoggingShmemHdr.wraparound h"
    "until c' = until c" "startpos c' = startpos c"
    by (rule copy_item_frame)+
qed

lemma first_call_eq:
  "first_call h =
     (if hdr_lock h then None
      else Some (h\<lparr>hdr_lock := True\<rparr>,
                 \<lparr>until = endpos h, startpos = readpos h, wraparound = (endpos h < readpos h)\<rparr>))"
  by (simp add: first_call_def LWLockAcquire_def)

text \<open>The state in which the loop of a call starts.\<close>

lemma get_logged_data_eq:
  "get_logged_data h fctx =
     (case fctx of
        None \<Rightarrow> if hdr_lock h then None
                else get_logged_data_loop (h\<lparr>hdr_lock := True\<rparr>)
                       \<lparr>until = endpos h, startpos = readpos h, wraparound = (endpos h < readpos h)\<rparr>
      | Some c \<Rightarrow> get_logged_data_loop h c)"
  by (simp add: get_logged_data_def first_call_eq split: option.splits)

lemma loop_row_cases:
  assumes "get_logged_data_loop h c = Some (Inr (Some row, h', c'))"
  shows "loop_cond h c \<and>
    (if no_room_for_header h
     then loop_cond (h\<lparr>readpos := 0\<rparr>) (c\<lparr>wraparound := False\<rparr>) \<and>
          \<not> no_room_for_header (h\<lparr>readpos := 0\<rparr>) \<and>
          next_row (h\<lparr>readpos := 0\<rparr>) (c\<lparr>wraparound := False\<rparr>) = Inr (row, h', c')
     else next_row h c = Inr (row, h', c'))"
  using assms by (subst (asm) loop_unfolded) (simp add: emit_Some_row split: if_splits)

lemma loop_frame:
  assumes "get_logged_data_loop h c = Some (Inr (r, h', c'))"
  shows "data h' = data h \<and> buffer_size h' = buffer_size h \<and> endpos h' = endpos h \<and>
    LoggingShmemHdr.wraparound h' = LoggingShmemHdr.wraparound h \<and> until c' = until c"
proof (cases r)
  case None
  from assms [unfolded None] show ?thesis
    by (subst (asm) loop_unfolded) (auto simp: emit_not_done LWLockRelease_def split: if_splits)
next
  case (Some row)
  note rc = loop_row_cases [OF assms [unfolded Some]]
  show ?thesis
  proof (cases "no_room_for_header h")
    case True
    with rc have "next_row (h\<lparr>readpos := 0\<rparr>) (c\<lparr>wraparound := False\<rparr>) = Inr (row, h', c')"
      by simp
    from next_row_frame [OF this] show ?thesis by simp
  next
    case False
    with rc have "next_row h c = Inr (row, h', c')" by simp
    from next_row_frame [OF this] show ?thesis by simp
  qed
qed

lemma get_logged_data_frame:
  assumes "get_logged_data h fctx = Some (Inr (r, h', c'))"
  shows "data h' = data h \<and> buffer_size h' = buffer_size h \<and> endpos h' = endpos h \<and>
    LoggingShmemHdr.wraparound h' = LoggingShmemHdr.wraparound h"
proof (cases fctx)
  case None
  with assms have "get_logged_data_loop (h\<lparr>hdr_lock := True\<rparr>)
      \<lparr>until = endpos h, startpos = readpos h, wraparound = (endpos h < readpos h)\<rparr> =
      Some (Inr (r, h', c'))"
    by (simp add: get_logged_data_eq split: if_splits)
  from loop_frame [OF this] show ?thesis by simp
next
  case (Some c)
  with assms have "get_logged_data_loop h c = Some (Inr (r, h', c'))"
    by (simp add: get_logged_data_eq)
  from loop_frame [OF this] show ?thesis by simp
qed

lemma arena_ok_cong:
  "data h' = data h \<Longrightarrow> buffer_size h' = buffer_size h \<Longrightarrow> arena_ok h' = arena_ok h"
  by (simp add: arena_ok_def)

lemma no_room_cong:
  "readpos h' = readpos h \<Longrightarrow> buffer_size h' = buffer_size h \<Longrightarrow>
     no_room_for_header h' = no_room_for_header h"
  by (simp add: no_room_for_header_def)

lemma next_row_position_bounds:
  assumes ok: "arena_ok h" and room: "\<not> no_room_for_header h"
    and nr: "next_row h c = Inr (row, h', c')"
  shows "position row = readpos h" "0 \<le> sint (position row)"
    "sint (position row) < sint (buffer_size h)"
proof -
  note r = room_for_header [OF ok room]
  show p: "position row = readpos h" using nr by (rule next_row_Inr(2))
  from r(1,3) have "unat (readpos h) < 2 ^ 31" by simp
  then have s: "sint (readpos h) = int (unat (readpos h))" by (rule sint_eq_unat)
  from r(3) have b: "sint (buffer_size h) = int (unat (buffer_size h))" by (rule sint_eq_unat)
  from s p show "0 \<le> sint (position row)" by simp
  from r(1) have "unat (readpos h) < unat (buffer_size h)" by (simp add: ITEM_HDR_LEN_def)
  then have "int (unat (readpos h)) < int (unat (buffer_size h))" by (simp only: of_nat_less_iff)
  with s b p show "sint (position row) < sint (buffer_size h)" by (simp only:)
qed

lemma loop_position:
  assumes ok: "arena_ok h" and res: "get_logged_data_loop h c = Some (Inr (Some row, h', c'))"
  shows "position row = (if no_room_for_header h then 0 else readpos h) \<and>
    0 \<le> sint (position row) \<and> sint (position row) < sint (buffer_size h) \<and>
    (\<exists>h0 c0. next_row h0 c0 = Inr (row, h', c') \<and> readpos h0 = position row \<and>
       data h0 = data h \<and> buffer_size h0 = buffer_size h)"
proof (cases "no_room_for_header h")
  case True
  let ?h = "h\<lparr>readpos := 0\<rparr>" and ?c = "c\<lparr>wraparound := False\<rparr>"
  from loop_row_cases [OF res] True
  have room: "\<not> no_room_for_header ?h" and nr: "next_row ?h ?c = Inr (row, h', c')"
    by simp_all
  have ok0: "arena_ok ?h" using ok by (simp add: arena_ok_def)
  note b = next_row_position_bounds [OF ok0 room nr]
  from b(1) have p: "position row = 0" by simp
  moreover from b(2) have "0 \<le> sint (position row)" .
  moreover from b(3) have "sint (position row) < sint (buffer_size h)" by simp
  moreover from nr p have "\<exists>h0 c0. next_row h0 c0 = Inr (row, h', c') \<and> readpos h0 = position row \<and>
       data h0 = data h \<and> buffer_size h0 = buffer_size h"
    by (intro exI [of _ ?h] exI [of _ ?c]) simp
  ultimately show ?thesis using True by simp
next
  case False
  from loop_row_cases [OF res] False have nr: "next_row h c = Inr (row, h', c')" by simp
  note b = next_row_position_bounds [OF ok False nr]
  from nr b(1) have "\<exists>h0 c0. next_row h0 c0 = Inr (row, h', c') \<and> readpos h0 = position row \<and>
       data h0 = data h \<and> buffer_size h0 = buffer_size h"
    by (intro exI [of _ h] exI [of _ c]) simp
  with b False show ?thesis by simp
qed

lemma call_position:
  assumes ok: "arena_ok h" and res: "get_logged_data h fctx = Some (Inr (Some row, h', c'))"
  shows "position row = (if no_room_for_header h then 0 else readpos h) \<and>
    0 \<le> sint (position row) \<and> sint (position row) < sint (buffer_size h) \<and>
    (\<exists>h0 c0. next_row h0 c0 = Inr (row, h', c') \<and> readpos h0 = position row \<and>
       data h0 = data h \<and> buffer_size h0 = buffer_size h)"
proof (cases fctx)
  case None
  let ?h = "h\<lparr>hdr_lock := True\<rparr>"
  from res None have l: "get_logged_data_loop ?h
      \<lparr>until = endpos h, startpos = readpos h, wraparound = (endpos h < readpos h)\<rparr> =
      Some (Inr (Some row, h', c'))"
    by (simp add: get_logged_data_eq split: if_splits)
  have ok1: "arena_ok ?h" using ok by (simp add: arena_ok_def)
  have nr: "no_room_for_header ?h = no_room_for_header h" by (simp add: no_room_for_header_def)
  from loop_position [OF ok1 l, unfolded nr] show ?thesis by (auto split: if_splits)
next
  case (Some c)
  with res have "get_logged_data_loop h c = Some (Inr (Some row, h', c'))"
    by (simp add: get_logged_data_eq)
  from loop_position [OF ok this] show ?thesis .
qed

lemma drain_positions:
  "arena_ok h \<Longrightarrow> row \<in> set (fst (drain_from n h fctx)) \<Longrightarrow>
     0 \<le> sint (position row) \<and> sint (position row) < sint (buffer_size h)"
proof (induction n arbitrary: h fctx)
  case 0
  then show ?case by simp
next
  case (Suc n)
  show ?case
  proof (cases "get_logged_data h fctx")
    case None
    with Suc.prems show ?thesis by simp
  next
    case (Some res)
    show ?thesis
    proof (cases res)
      case (Inl e)
      with Some Suc.prems show ?thesis by simp
    next
      case (Inr t)
      obtain r h' c' where t: "t = (r, h', c')" by (cases t)
      show ?thesis
      proof (cases r)
        case None
        with Some Inr t Suc.prems show ?thesis by simp
      next
        case (Some row')
        with \<open>get_logged_data h fctx = Some res\<close> Inr t
        have call: "get_logged_data h fctx = Some (Inr (Some row', h', c'))" by simp
        from get_logged_data_frame [OF call]
        have fr: "data h' = data h" "buffer_size h' = buffer_size h" by simp_all
        with Suc.prems(1) have ok': "arena_ok h'" by (simp add: arena_ok_def)
        from call Suc.prems(2)
        have "row = row' \<or> row \<in> set (fst (drain_from n h' (Some c')))"
          by (auto split: prod.splits)
        then show ?thesis
        proof
          assume "row = row'"
          with call_position [OF Suc.prems(1) call] show ?thesis by blast
        next
          assume "row \<in> set (fst (drain_from n h' (Some c')))"
          from Suc.IH [OF ok' this] fr show ?thesis by simp
        qed
      qed
    qed
  qed
qed

text \<open>
  C9. In a well-formed store, a row that a call returns carries as position the read
  cursor at which its record was read, before the cursor was advanced: the cursor at
  entry, or 0 when there was no room for a header at the cursor. Every position
  reported in a session lies in \<open>[0, buffer_size)\<close>.
\<close>

theorem reported_position:
  assumes ok: "arena_ok h"
  shows "(\<forall>row h' c'. get_logged_data h fctx = Some (Inr (Some row, h', c')) \<longrightarrow>
      position row = (if no_room_for_header h then 0 else readpos h) \<and>
      (\<exists>h0 c0. next_row h0 c0 = Inr (row, h', c') \<and> readpos h0 = position row \<and>
         data h0 = data h \<and> buffer_size h0 = buffer_size h)) \<and>
    (\<forall>row \<in> set (fst (drain_from n h fctx)).
      0 \<le> sint (position row) \<and> sint (position row) < sint (buffer_size h))"
  using call_position [OF ok] drain_positions [OF ok] by blast

lemma drain_arena_two:
  "drain 3 arena_two = ([sample_row 0, sample_row 32], Done (arena_two\<lparr>readpos := 64\<rparr>))"
  by code_simp

lemma call_arena_two:
  "get_logged_data arena_two None =
     Some (Inr (Some (sample_row 0), arena_two\<lparr>hdr_lock := True, readpos := 32\<rparr>,
       \<lparr>until = 64, startpos = 0, wraparound = False\<rparr>))"
  by code_simp

theorem reported_position_witness:
  "arena_ok arena_two \<and>
   get_logged_data arena_two None =
     Some (Inr (Some (sample_row 0), arena_two\<lparr>hdr_lock := True, readpos := 32\<rparr>,
       \<lparr>until = 64, startpos = 0, wraparound = False\<rparr>)) \<and>
   position (sample_row 0) = readpos arena_two \<and>
   fst (drain_from 3 arena_two None) = [sample_row 0, sample_row 32] \<and>
   0 \<le> sint (position (sample_row 32)) \<and>
   sint (position (sample_row 32)) < sint (buffer_size arena_two)"
proof -
  note w = reported_position [OF arena_two_facts(1), of None 3]
  have d: "fst (drain_from 3 arena_two None) = [sample_row 0, sample_row 32]"
    using drain_arena_two by (simp add: drain_def)
  from w call_arena_two arena_two_facts(2)
  have 1: "position (sample_row 0) = readpos arena_two" by simp
  from w d have 2: "0 \<le> sint (position (sample_row 32)) \<and>
      sint (position (sample_row 32)) < sint (buffer_size arena_two)" by simp
  from arena_two_facts(1) call_arena_two d 1 2 show ?thesis by simp
qed

subsection \<open>Facts about reset\<close>

declare cas_loop.simps [simp del]

text \<open>Whatever the producers do in between, the loop ends with the cell at 0.\<close>

lemma cas_loop_zero: "cas_loop env cell curpos = 0"
proof (induction env cell curpos rule: cas_loop.induct)
  case (1 env cell curpos)
  show ?case
  proof (cases "interfere env cell = curpos")
    case True
    then show ?thesis
      by (subst cas_loop.simps) (simp add: pg_atomic_compare_exchange_u32_def)
  next
    case False
    then have cas: "pg_atomic_compare_exchange_u32 (interfere env cell) curpos 0 =
        (False, interfere env cell, interfere env cell)"
      by (simp add: pg_atomic_compare_exchange_u32_def)
    have "cas_loop env cell curpos = cas_loop (tl env) (interfere env cell) (interfere env cell)"
      by (subst cas_loop.simps) (simp add: cas)
    also have "\<dots> = 0"
      by (rule "1.IH" [of False "(interfere env cell, interfere env cell)"]) (simp_all add: cas)
    finally show ?thesis .
  qed
qed

text \<open>A plain compare-and-swap with a stale expectation changes nothing; hence the loop.\<close>

lemma stale_compare_exchange:
  "cell \<noteq> expected \<Longrightarrow>
     pg_atomic_compare_exchange_u32 cell expected 0 = (False, cell, cell)"
  by (simp add: pg_atomic_compare_exchange_u32_def)

lemma reset_counters_in_shmem_eq:
  "reset_counters_in_shmem env h =
     (if hdr_lock h then None else Some (h\<lparr>endpos := 0, readpos := 0\<rparr>))"
  by (simp add: reset_counters_in_shmem_def LWLockAcquire_def LWLockRelease_def cas_loop_zero Let_def)

text \<open>
  C4 (as amended). \<^verbatim>\<open>reset_counters_in_shmem\<close> waits for the lock (it does not return
  while the lock is held), and with the lock it brings \<^verbatim>\<open>endpos\<close> to 0 by the
  compare-and-swap loop, whatever the producers store in between, sets \<^verbatim>\<open>readpos\<close> to
  0 and releases the lock. Nothing else changes: in particular the \<open>wraparound\<close> flag
  of the shared header keeps its value. A single compare-and-swap whose expectation is
  stale leaves the cell as it is, which is why the swap is retried.
\<close>

theorem reset_zeroes_cursors_under_lock:
  "(hdr_lock h \<longrightarrow> reset_counters_in_shmem env h = None) \<and>
   (\<not> hdr_lock h \<longrightarrow>
      reset_counters_in_shmem env h = Some (h\<lparr>endpos := 0, readpos := 0\<rparr>) \<and>
      LoggingShmemHdr.wraparound (h\<lparr>endpos := 0, readpos := 0\<rparr>) = LoggingShmemHdr.wraparound h) \<and>
   reset_counters_in_shmem env h =
     Option.bind (LWLockAcquire h)
       (\<lambda>h1. Some (LWLockRelease (h1\<lparr>endpos := cas_loop env (endpos h1) (endpos h), readpos := 0\<rparr>))) \<and>
   cas_loop env (endpos h) (endpos h) = 0 \<and>
   (cell \<noteq> expected \<longrightarrow> pg_atomic_compare_exchange_u32 cell expected 0 = (False, cell, cell))"
proof (intro conjI impI)
  show "reset_counters_in_shmem env h =
     Option.bind (LWLockAcquire h)
       (\<lambda>h1. Some (LWLockRelease (h1\<lparr>endpos := cas_loop env (endpos h1) (endpos h), readpos := 0\<rparr>)))"
    by (simp add: reset_counters_in_shmem_def Let_def split: option.splits)
qed (simp_all add: reset_counters_in_shmem_eq cas_loop_zero stale_compare_exchange)

theorem reset_zeroes_cursors_under_lock_witness:
  "hdr_lock arena_full \<and> reset_counters_in_shmem [Some 5, None, Some 7] arena_full = None \<and>
   \<not> hdr_lock arena_two \<and>
   reset_counters_in_shmem [Some 5, None, Some 7] arena_two =
     Some (arena_two\<lparr>endpos := 0, readpos := 0\<rparr>) \<and>
   (5 :: uint32) \<noteq> 64 \<and> pg_atomic_compare_exchange_u32 5 64 0 = (False, 5, 5)"
proof -
  have l: "hdr_lock arena_full" "\<not> hdr_lock arena_two" "(5 :: uint32) \<noteq> 64"
    by (simp_all add: arena_full_def arena_two_def)
  from reset_zeroes_cursors_under_lock [of arena_full "[Some 5, None, Some 7]" 5 64] l
  have 1: "reset_counters_in_shmem [Some 5, None, Some 7] arena_full = None"
    and 3: "pg_atomic_compare_exchange_u32 5 64 0 = (False, 5, 5)"
    by blast+
  from reset_zeroes_cursors_under_lock [of arena_two "[Some 5, None, Some 7]" 5 64] l
  have 2: "reset_counters_in_shmem [Some 5, None, Some 7] arena_two =
     Some (arena_two\<lparr>endpos := 0, readpos := 0\<rparr>)"
    by blast
  from l 1 2 3 show ?thesis by (intro conjI)
qed

text \<open>
  C4 as stated fails on the flag: a store whose shared \<open>wraparound\<close> flag is set still
  has it set after the reset.
\<close>

theorem reset_zeroes_cursors_under_lock_counterexample:
  "LoggingShmemHdr.wraparound (arena_full\<lparr>hdr_lock := False\<rparr>) \<and>
   reset_counters_in_shmem [] (arena_full\<lparr>hdr_lock := False\<rparr>) =
     Some (arena_full\<lparr>hdr_lock := False, endpos := 0, readpos := 0\<rparr>) \<and>
   LoggingShmemHdr.wraparound (arena_full\<lparr>hdr_lock := False, endpos := 0, readpos := 0\<rparr>)"
  by (simp add: reset_counters_in_shmem_eq arena_full_def)

subsection \<open>Facts about flush\<close>

lemma drain_after_reset:
  assumes "\<not> hdr_lock h"
  shows "drain (Suc n) (h\<lparr>endpos := 0, readpos := 0\<rparr>) = ([], Done (h\<lparr>endpos := 0, readpos := 0\<rparr>))"
proof -
  let ?h = "h\<lparr>endpos := 0, readpos := 0\<rparr>"
  let ?c = "\<lparr>until = 0, startpos = 0, wraparound = False\<rparr>"
  have "\<not> loop_cond (?h\<lparr>hdr_lock := True\<rparr>) ?c" by (simp add: loop_cond_def)
  then have "get_logged_data_loop (?h\<lparr>hdr_lock := True\<rparr>) ?c =
      Some (Inr (None, LWLockRelease (?h\<lparr>hdr_lock := True\<rparr>), ?c))"
    by (rule loop_done)
  moreover have "LWLockRelease (?h\<lparr>hdr_lock := True\<rparr>) = ?h"
    using assms by (simp add: LWLockRelease_def)
  ultimately have "get_logged_data ?h None = Some (Inr (None, ?h, ?c))"
    using assms by (simp add: get_logged_data_eq)
  then show ?thesis by (simp add: drain_def)
qed

text \<open>
  C5. After a flush of a store whose lock is free, a drain session ends at its first call
  without a row and leaves the store as the flush left it; and a second flush right
  after the first leaves the store as the first one did, whatever the producers did to
  the write cursor during either.
\<close>

theorem flush_idempotent:
  "(\<not> hdr_lock h \<longrightarrow>
      flush_logged_data env h = Some (h\<lparr>endpos := 0, readpos := 0\<rparr>) \<and>
      drain (Suc n) (h\<lparr>endpos := 0, readpos := 0\<rparr>) = ([], Done (h\<lparr>endpos := 0, readpos := 0\<rparr>))) \<and>
   Option.bind (flush_logged_data env h) (flush_logged_data env') = flush_logged_data env h"
proof (intro conjI impI)
  assume "\<not> hdr_lock h"
  then show "flush_logged_data env h = Some (h\<lparr>endpos := 0, readpos := 0\<rparr>)"
    by (simp add: flush_logged_data_def reset_counters_in_shmem_eq)
next
  assume "\<not> hdr_lock h"
  then show "drain (Suc n) (h\<lparr>endpos := 0, readpos := 0\<rparr>) = ([], Done (h\<lparr>endpos := 0, readpos := 0\<rparr>))"
    by (rule drain_after_reset)
next
  show "Option.bind (flush_logged_data env h) (flush_logged_data env') = flush_logged_data env h"
    by (simp add: flush_logged_data_def reset_counters_in_shmem_eq)
qed

theorem flush_idempotent_witness:
  "\<not> hdr_lock arena_two \<and>
   flush_logged_data [Some 96] arena_two = Some (arena_two\<lparr>endpos := 0, readpos := 0\<rparr>) \<and>
   drain 1 (arena_two\<lparr>endpos := 0, readpos := 0\<rparr>) = ([], Done (arena_two\<lparr>endpos := 0, readpos := 0\<rparr>)) \<and>
   Option.bind (flush_logged_data [Some 96] arena_two) (flush_logged_data []) =
     Some (arena_two\<lparr>endpos := 0, readpos := 0\<rparr>)"
proof -
  have l: "\<not> hdr_lock arena_two" by (simp add: arena_two_def)
  from flush_idempotent [of arena_two "[Some 96]" 0 "[]"] l
  have "flush_logged_data [Some 96] arena_two = Some (arena_two\<lparr>endpos := 0, readpos := 0\<rparr>)"
    "drain (Suc 0) (arena_two\<lparr>endpos := 0, readpos := 0\<rparr>) =
       ([], Done (arena_two\<lparr>endpos := 0, readpos := 0\<rparr>))"
    "Option.bind (flush_logged_data [Some 96] arena_two) (flush_logged_data []) =
       flush_logged_data [Some 96] arena_two"
    by blast+
  with l show ?thesis by simp
qed

subsection \<open>The read cursor stays inside the arena\<close>

lemma unat_of_sint_nonneg: "0 \<le> sint (w :: 32 word) \<Longrightarrow> int (unat w) = sint w"
proof -
  assume "0 \<le> sint w"
  then have "uint w = sint w" by (rule uint_eq_sint)
  then show ?thesis by simp
qed

lemma record_fits_unat:
  assumes ok: "arena_ok h" and fits: "record_fits h"
  shows "0 < unat (totallen_at h)" "unat (totallen_at h) \<le> unat (buffer_size h)"
proof -
  from fits have pos: "0 < sint (totallen_at h)" and le: "sint (totallen_at h) \<le> sint (buffer_size h)"
    by (simp_all add: record_fits_def)
  from pos have l: "int (unat (totallen_at h)) = sint (totallen_at h)"
    by (intro unat_of_sint_nonneg) simp
  from ok have b: "int (unat (buffer_size h)) = sint (buffer_size h)"
    by (intro unat_of_sint_nonneg) (simp add: arena_ok_def)
  from pos l have "0 < int (unat (totallen_at h))" by (simp only:)
  then show "0 < unat (totallen_at h)" by (simp only: of_nat_0_less_iff)
  from le l b have "int (unat (totallen_at h)) \<le> int (unat (buffer_size h))" by (simp only:)
  then show "unat (totallen_at h) \<le> unat (buffer_size h)" by (simp only: of_nat_le_iff)
qed

lemma copy_item_readpos:
  assumes ok: "arena_ok h" and room: "\<not> no_room_for_header h"
    and fits: "record_fits h"
    and res: "copy_item h c = Inr (item, h', c')"
  shows "unat (readpos h') < unat (buffer_size h') \<and>
    (if unat (readpos h) + unat (totallen_at h) < unat (buffer_size h)
     then unat (readpos h') = unat (readpos h) + unat (totallen_at h)
     else unat (readpos h') = unat (readpos h) + unat (totallen_at h) - unat (buffer_size h))"
proof -
  note r = room_for_header [OF ok room]
  note f = record_fits_unat [OF ok fits]
  note ci = copy_item_Inr [OF ok room res]
  from ci have hi: "unat (totallen_at h) \<le> 0x3fffffff" by simp
  from r(1,3) hi have sum: "unat (readpos h) + unat (totallen_at h) < 2 ^ 32" by simp
  show ?thesis
  proof (cases "unat (readpos h) + unat (totallen_at h) < unat (buffer_size h)")
    case True
    with ci have h': "h' = h\<lparr>readpos := readpos h + totallen_at h\<rparr>" by simp
    have "unat (readpos h + totallen_at h) = unat (readpos h) + unat (totallen_at h)"
      using sum by (rule unat_add_32)
    with True h' show ?thesis by simp
  next
    case False
    then have two: "unat (buffer_size h) \<le> unat (readpos h) + unat (totallen_at h)" by simp
    with ci have h': "h' = h\<lparr>readpos := readpos h + totallen_at h - buffer_size h\<rparr>" by simp
    have "unat (readpos h + totallen_at h - buffer_size h) =
        unat (readpos h) + unat (totallen_at h) - unat (buffer_size h)"
      using two sum by (rule unat_new_readpos)
    moreover have "unat (readpos h) + unat (totallen_at h) - unat (buffer_size h) < unat (buffer_size h)"
      using f(2) r(1) by (simp add: ITEM_HDR_LEN_def)
    ultimately show ?thesis using False h' by simp
  qed
qed

lemma loop_readpos:
  assumes ok: "arena_ok h" and inside: "unat (readpos h) < unat (buffer_size h)"
    and fits: "\<forall>h1. header_read h c = Some h1 \<longrightarrow> record_fits h1"
    and res: "get_logged_data_loop h c = Some (Inr (r, h', c'))"
  shows "unat (readpos h') < unat (buffer_size h')"
proof (cases r)
  case None
  from res [unfolded None] inside show ?thesis
    by (subst (asm) loop_unfolded) (auto simp: emit_not_done LWLockRelease_def split: if_splits)
next
  case (Some row)
  note rc = loop_row_cases [OF res [unfolded Some]]
  show ?thesis
  proof (cases "no_room_for_header h")
    case True
    let ?h = "h\<lparr>readpos := 0\<rparr>" and ?c = "c\<lparr>wraparound := False\<rparr>"
    from rc True have room: "\<not> no_room_for_header ?h" and nr: "next_row ?h ?c = Inr (row, h', c')"
      by simp_all
    from next_row_Inr(1) [OF nr] obtain item where ci: "copy_item ?h ?c = Inr (item, h', c')"
      by blast
    have ok0: "arena_ok ?h" using ok by (simp add: arena_ok_def)
    from rc True room have "header_read h c = Some ?h"
      by (simp add: header_read_def loop_place_def)
    with fits have "record_fits ?h" by blast
    from copy_item_readpos [OF ok0 room this ci] show ?thesis by simp
  next
    case False
    with rc have nr: "next_row h c = Inr (row, h', c')" by simp
    from next_row_Inr(1) [OF nr] obtain item where ci: "copy_item h c = Inr (item, h', c')"
      by blast
    from rc False have "header_read h c = Some h"
      by (simp add: header_read_def loop_place_def)
    with fits have "record_fits h" by blast
    from copy_item_readpos [OF ok False this ci] show ?thesis by simp
  qed
qed

text \<open>
  C10. Let the store be well formed with the read cursor inside the arena. A call of the
  drain that returns, having read a header that announces a positive length of at most
  \<open>buffer_size\<close>, leaves the read cursor inside the arena, and so does a reset. The
  jump for lack of room and the reset leave it at 0; the one-part branch, taken only when
  \<open>readpos + totallen < buffer_size\<close>, leaves it at that sum; the two-part branch
  leaves it at \<open>readpos + totallen - buffer_size\<close>.
\<close>

theorem readpos_stays_in_arena:
  assumes ok: "arena_ok h" and inside: "unat (readpos h) < unat (buffer_size h)"
  shows "(\<forall>r h' c'. (\<forall>h1. header_read h c = Some h1 \<longrightarrow> record_fits h1) \<and>
              get_logged_data_loop h c = Some (Inr (r, h', c'))
            \<longrightarrow> unat (readpos h') < unat (buffer_size h')) \<and>
    (\<forall>item h' c'. \<not> no_room_for_header h \<and> record_fits h \<and> copy_item h c = Inr (item, h', c')
            \<longrightarrow> unat (readpos h') < unat (buffer_size h') \<and>
        (if unat (readpos h) + unat (totallen_at h) < unat (buffer_size h)
         then unat (readpos h') = unat (readpos h) + unat (totallen_at h)
         else unat (readpos h') = unat (readpos h) + unat (totallen_at h) - unat (buffer_size h))) \<and>
    (loop_cond h c \<and> no_room_for_header h \<longrightarrow>
        get_logged_data_loop h c = get_logged_data_loop (h\<lparr>readpos := 0\<rparr>) (c\<lparr>wraparound := False\<rparr>) \<and>
        unat (readpos (h\<lparr>readpos := 0\<rparr>)) < unat (buffer_size (h\<lparr>readpos := 0\<rparr>))) \<and>
    (\<forall>h'. reset_counters_in_shmem env h = Some h'
            \<longrightarrow> readpos h' = 0 \<and> unat (readpos h') < unat (buffer_size h'))"
proof (intro conjI allI impI)
  fix r h' c'
  assume a: "(\<forall>h1. header_read h c = Some h1 \<longrightarrow> record_fits h1) \<and>
      get_logged_data_loop h c = Some (Inr (r, h', c'))"
  then have "\<forall>h1. header_read h c = Some h1 \<longrightarrow> record_fits h1"
    and "get_logged_data_loop h c = Some (Inr (r, h', c'))" by blast+
  with ok inside show "unat (readpos h') < unat (buffer_size h')"
    by (rule loop_readpos)
next
  fix item h' c'
  assume a: "\<not> no_room_for_header h \<and> record_fits h \<and> copy_item h c = Inr (item, h', c')"
  then have *: "unat (readpos h') < unat (buffer_size h') \<and>
    (if unat (readpos h) + unat (totallen_at h) < unat (buffer_size h)
     then unat (readpos h') = unat (readpos h) + unat (totallen_at h)
     else unat (readpos h') = unat (readpos h) + unat (totallen_at h) - unat (buffer_size h))"
    using copy_item_readpos [OF ok] by blast
  from * show "unat (readpos h') < unat (buffer_size h')" by (rule conjunct1)
  from * show "if unat (readpos h) + unat (totallen_at h) < unat (buffer_size h)
     then unat (readpos h') = unat (readpos h) + unat (totallen_at h)
     else unat (readpos h') = unat (readpos h) + unat (totallen_at h) - unat (buffer_size h)"
    by (rule conjunct2)
next
  assume "loop_cond h c \<and> no_room_for_header h"
  then show "get_logged_data_loop h c =
      get_logged_data_loop (h\<lparr>readpos := 0\<rparr>) (c\<lparr>wraparound := False\<rparr>)"
    by (simp add: loop_continue)
next
  from inside show "unat (readpos (h\<lparr>readpos := 0\<rparr>)) < unat (buffer_size (h\<lparr>readpos := 0\<rparr>))"
    by simp
next
  fix h'
  assume "reset_counters_in_shmem env h = Some h'"
  then have h': "h' = h\<lparr>endpos := 0, readpos := 0\<rparr>"
    by (simp add: reset_counters_in_shmem_eq split: if_splits)
  then show "readpos h' = 0" by simp
  from h' inside show "unat (readpos h') < unat (buffer_size h')" by simp
qed

lemma loop_arena_split:
  "get_logged_data_loop arena_split ctx_split =
     Some (Inr (Some \<lparr>level = 20, errno = 2, message = [0x61, 0x62, 0x63, 0x64, 0x65, 0x66, 0x67],
                      detail = None, hint = None, position = 32\<rparr>,
                arena_split\<lparr>readpos := 4\<rparr>, ctx_split\<lparr>wraparound := False\<rparr>))"
  by code_simp

lemma copy_item_arena_two:
  "copy_item arena_two ctx_full = Inr (sample_record, arena_two\<lparr>readpos := 32\<rparr>, ctx_full)"
  by code_simp

lemma copy_item_arena_split:
  "copy_item arena_split ctx_split =
     Inr (sample_header 36 8 @ [0x61, 0x62, 0x63, 0x64] @ [0x65, 0x66, 0x67, 0],
          arena_split\<lparr>readpos := 4\<rparr>, ctx_split\<lparr>wraparound := False\<rparr>)"
  by code_simp

lemma record_fits_samples:
  "header_read arena_split ctx_split = Some arena_split" "record_fits arena_split"
  "record_fits arena_two"
  by code_simp+

lemma loop_cond_arena_tail: "loop_cond arena_tail ctx_tail"
  by code_simp

theorem readpos_stays_in_arena_witness:
  "arena_ok arena_split \<and> unat (readpos arena_split) < unat (buffer_size arena_split) \<and>
   header_read arena_split ctx_split = Some arena_split \<and> record_fits arena_split \<and>
   get_logged_data_loop arena_split ctx_split =
     Some (Inr (Some \<lparr>level = 20, errno = 2, message = [0x61, 0x62, 0x63, 0x64, 0x65, 0x66, 0x67],
                      detail = None, hint = None, position = 32\<rparr>,
                arena_split\<lparr>readpos := 4\<rparr>, ctx_split\<lparr>wraparound := False\<rparr>)) \<and>
   unat (readpos (arena_split\<lparr>readpos := 4\<rparr>)) < unat (buffer_size (arena_split\<lparr>readpos := 4\<rparr>)) \<and>
   \<not> no_room_for_header arena_split \<and> record_fits arena_split \<and>
   \<not> unat (readpos arena_split) + unat (totallen_at arena_split) < unat (buffer_size arena_split) \<and>
   unat (readpos (arena_split\<lparr>readpos := 4\<rparr>)) =
     unat (readpos arena_split) + unat (totallen_at arena_split) - unat (buffer_size arena_split) \<and>
   arena_ok arena_two \<and> unat (readpos arena_two) < unat (buffer_size arena_two) \<and>
   \<not> no_room_for_header arena_two \<and> record_fits arena_two \<and>
   unat (readpos arena_two) + unat (totallen_at arena_two) < unat (buffer_size arena_two) \<and>
   unat (readpos (arena_two\<lparr>readpos := 32\<rparr>)) = unat (readpos arena_two) + unat (totallen_at arena_two) \<and>
   \<not> hdr_lock arena_two \<and>
   reset_counters_in_shmem [] arena_two = Some (arena_two\<lparr>endpos := 0, readpos := 0\<rparr>) \<and>
   unat (readpos (arena_two\<lparr>endpos := 0, readpos := 0\<rparr>)) <
     unat (buffer_size (arena_two\<lparr>endpos := 0, readpos := 0\<rparr>)) \<and>
   arena_ok arena_tail \<and> unat (readpos arena_tail) < unat (buffer_size arena_tail) \<and>
   loop_cond arena_tail ctx_tail \<and> no_room_for_header arena_tail \<and>
   unat (readpos (arena_tail\<lparr>readpos := 0\<rparr>)) < unat (buffer_size (arena_tail\<lparr>readpos := 0\<rparr>))"
proof -
  have in_split: "unat (readpos arena_split) < unat (buffer_size arena_split)"
    by (simp add: arena_split_facts)
  have in_two: "unat (readpos arena_two) < unat (buffer_size arena_two)"
    by (simp add: arena_two_facts)
  have in_tail: "unat (readpos arena_tail) < unat (buffer_size arena_tail)"
    by (simp add: arena_tail_facts)
  note s = readpos_stays_in_arena [OF arena_split_facts(1) in_split, of ctx_split "[]"]
  note t = readpos_stays_in_arena [OF arena_two_facts(1) in_two, of ctx_full "[]"]
  note u = readpos_stays_in_arena [OF arena_tail_facts(1) in_tail, of ctx_tail "[]"]
  have br_split: "\<not> unat (readpos arena_split) + unat (totallen_at arena_split) < unat (buffer_size arena_split)"
    by (simp add: arena_split_facts)
  have br_two: "unat (readpos arena_two) + unat (totallen_at arena_two) < unat (buffer_size arena_two)"
    by (simp add: arena_two_facts)
  have lock: "\<not> hdr_lock arena_two" by (simp add: arena_two_def)
  have reset: "reset_counters_in_shmem [] arena_two = Some (arena_two\<lparr>endpos := 0, readpos := 0\<rparr>)"
    using lock by (simp add: reset_counters_in_shmem_eq)
  from record_fits_samples(1,2)
  have "\<forall>h1. header_read arena_split ctx_split = Some h1 \<longrightarrow> record_fits h1" by simp
  with s loop_arena_split
  have 1: "unat (readpos (arena_split\<lparr>readpos := 4\<rparr>)) < unat (buffer_size (arena_split\<lparr>readpos := 4\<rparr>))"
    by blast
  from s arena_split_facts(2) record_fits_samples(2) copy_item_arena_split
  have "if unat (readpos arena_split) + unat (totallen_at arena_split) < unat (buffer_size arena_split)
     then unat (readpos (arena_split\<lparr>readpos := 4\<rparr>)) = unat (readpos arena_split) + unat (totallen_at arena_split)
     else unat (readpos (arena_split\<lparr>readpos := 4\<rparr>)) =
       unat (readpos arena_split) + unat (totallen_at arena_split) - unat (buffer_size arena_split)"
    by blast
  with br_split have 2: "unat (readpos (arena_split\<lparr>readpos := 4\<rparr>)) =
       unat (readpos arena_split) + unat (totallen_at arena_split) - unat (buffer_size arena_split)"
    by (simp only: if_False)
  from t arena_two_facts(2) record_fits_samples(3) copy_item_arena_two
  have "if unat (readpos arena_two) + unat (totallen_at arena_two) < unat (buffer_size arena_two)
     then unat (readpos (arena_two\<lparr>readpos := 32\<rparr>)) = unat (readpos arena_two) + unat (totallen_at arena_two)
     else unat (readpos (arena_two\<lparr>readpos := 32\<rparr>)) =
       unat (readpos arena_two) + unat (totallen_at arena_two) - unat (buffer_size arena_two)"
    by blast
  with br_two have 3: "unat (readpos (arena_two\<lparr>readpos := 32\<rparr>)) =
      unat (readpos arena_two) + unat (totallen_at arena_two)"
    by (simp only: if_True)
  from t reset
  have 4: "unat (readpos (arena_two\<lparr>endpos := 0, readpos := 0\<rparr>)) <
     unat (buffer_size (arena_two\<lparr>endpos := 0, readpos := 0\<rparr>))"
    by blast
  from u loop_cond_arena_tail arena_tail_facts(2)
  have 5: "unat (readpos (arena_tail\<lparr>readpos := 0\<rparr>)) < unat (buffer_size (arena_tail\<lparr>readpos := 0\<rparr>))"
    by blast
  from arena_split_facts(1,2) in_split record_fits_samples(1,2) record_fits_samples(2)
    loop_arena_split 1 br_split 2
    arena_two_facts(1,2) in_two record_fits_samples(3) br_two 3 lock reset 4
    arena_tail_facts(1,2) in_tail loop_cond_arena_tail 5
  show ?thesis by (intro conjI)
qed

subsection \<open>The snapshot of a session\<close>















lemma drain_arena_full:
  "drain_from 2 arena_full (Some ctx_full) =
     ([sample_row 32], Done (arena_full\<lparr>readpos := 0, hdr_lock := False\<rparr>))"
  by code_simp



subsection \<open>The magic field\<close>

lemma le32_drop4: "4 \<le> off \<Longrightarrow> le32 a off = le32 (drop 4 a) (off - 4)"
  by (simp add: le32_def)

lemma cstring_at_drop4:
  assumes "drop 4 a = drop 4 b" and "4 \<le> s"
  shows "cstring_at a s = cstring_at b s"
proof -
  have "drop (nat s) a = drop (nat s - 4) (drop 4 a)" using assms(2) by simp
  also have "\<dots> = drop (nat s) b" using assms by simp
  finally show ?thesis by (simp add: cstring_at_def)
qed

lemma form_row_cong:
  assumes "drop 4 a = drop 4 b" and "12 < length a" and "12 < length b"
    and "0 \<le> sint (message_len (item_fields b))" and "0 \<le> sint (detail_len (item_fields b))"
  shows "form_row a p = form_row b p"
proof -
  have f: "le32 a 8 = le32 b 8" "le32 a 16 = le32 b 16" "le32 a 20 = le32 b 20"
    "le32 a 24 = le32 b 24"
    using assms(1) by (simp_all add: le32_drop4)
  have "a ! 12 = drop 4 a ! 8" using assms(2) by simp
  also have "\<dots> = b ! 12" using assms(1,3) by simp
  finally have e: "a ! 12 = b ! 12" .
  from assms(4,5) have n: "0 \<le> sint (le32 b 16)" "0 \<le> sint (le32 b 20)"
    by (simp_all add: item_fields_def)
  have d: "cstring_at a (int ITEM_HDR_LEN) = cstring_at b (int ITEM_HDR_LEN)"
    "cstring_at a (int ITEM_HDR_LEN + sint (le32 b 16)) =
       cstring_at b (int ITEM_HDR_LEN + sint (le32 b 16))"
    "cstring_at a (int ITEM_HDR_LEN + sint (le32 b 16) + sint (le32 b 20)) =
       cstring_at b (int ITEM_HDR_LEN + sint (le32 b 16) + sint (le32 b 20))"
    using n by (auto intro!: cstring_at_drop4 [OF assms(1)] simp: ITEM_HDR_LEN_def)
  show ?thesis
    by (simp add: form_row_def item_fields_def f e d Let_def cong del: sum.case_cong_weak)
qed

lemma header_at_copied:
  assumes "unat (readpos h) + ITEM_HDR_LEN \<le> length (data h)"
  shows "item_fields (take ITEM_HDR_LEN (drop (unat (readpos h)) (data h)) @ rest) = header_at h"
proof -
  let ?c = "drop (unat (readpos h)) (data h)"
  have l: "ITEM_HDR_LEN \<le> length ?c" using assms by simp
  have t: "take 4 (drop k (take ITEM_HDR_LEN ?c @ rest)) = take 4 (drop k ?c)"
    if "k + 4 \<le> ITEM_HDR_LEN" for k
  proof -
    have "take 4 (drop k (take ITEM_HDR_LEN ?c @ rest)) = take 4 (drop k (take ITEM_HDR_LEN ?c))"
      using that l by simp
    also have "\<dots> = take 4 (take (ITEM_HDR_LEN - k) (drop k ?c))"
      by (simp only: drop_take)
    also have "\<dots> = take 4 (drop k ?c)" using that by (simp add: min_def)
    finally show ?thesis .
  qed
  have f: "le32 (take ITEM_HDR_LEN ?c @ rest) k = le32 ?c k" if "k + 4 \<le> ITEM_HDR_LEN" for k
    using t [OF that] by (simp only: le32_def)
  have e: "(take ITEM_HDR_LEN ?c @ rest) ! 12 = ?c ! 12"
    using l by (simp add: nth_append ITEM_HDR_LEN_def)
  have g: "le32 (take ITEM_HDR_LEN ?c @ rest) 0 = le32 ?c 0"
    "le32 (take ITEM_HDR_LEN ?c @ rest) 4 = le32 ?c 4"
    "le32 (take ITEM_HDR_LEN ?c @ rest) 8 = le32 ?c 8"
    "le32 (take ITEM_HDR_LEN ?c @ rest) 16 = le32 ?c 16"
    "le32 (take ITEM_HDR_LEN ?c @ rest) 20 = le32 ?c 20"
    "le32 (take ITEM_HDR_LEN ?c @ rest) 24 = le32 ?c 24"
    by (rule f, simp add: ITEM_HDR_LEN_def)+
  show ?thesis
    by (simp add: header_at_def item_fields_def g e)
qed

lemma set_magic_facts:
  assumes len: "length m = 4" and room: "unat (readpos h) + ITEM_HDR_LEN \<le> length (data h)"
  shows "length (data (set_magic m h)) = length (data h)"
    and "readpos (set_magic m h) = readpos h"
    and "buffer_size (set_magic m h) = buffer_size h"
    and "totallen_at (set_magic m h) = totallen_at h"
    and "take (unat (readpos h)) (data (set_magic m h)) = take (unat (readpos h)) (data h)"
    and "drop (unat (readpos h) + 4) (data (set_magic m h)) = drop (unat (readpos h) + 4) (data h)"
proof -
  let ?rp = "unat (readpos h)"
  have l: "length (take ?rp (data h)) = ?rp" using room by simp
  show "length (data (set_magic m h)) = length (data h)"
    using len room by (simp add: set_magic_def ITEM_HDR_LEN_def)
  show "readpos (set_magic m h) = readpos h" "buffer_size (set_magic m h) = buffer_size h"
    by (simp_all add: set_magic_def)
  show t: "take ?rp (data (set_magic m h)) = take ?rp (data h)"
    using l by (simp add: set_magic_def)
  show d: "drop (?rp + 4) (data (set_magic m h)) = drop (?rp + 4) (data h)"
    using l len by (simp add: set_magic_def)
  show "totallen_at (set_magic m h) = totallen_at h"
    using d by (simp add: totallen_at_def le32_def set_magic_def)
qed

lemma set_magic_parts:
  assumes len: "length m = 4" and room: "unat (readpos h) + ITEM_HDR_LEN \<le> length (data h)"
  shows "drop 4 (take ITEM_HDR_LEN (drop (unat (readpos h)) (data (set_magic m h)))) =
      drop 4 (take ITEM_HDR_LEN (drop (unat (readpos h)) (data h)))"
    and "drop (unat (readpos h) + ITEM_HDR_LEN) (data (set_magic m h)) =
      drop (unat (readpos h) + ITEM_HDR_LEN) (data h)"
    and "k \<le> unat (readpos h) \<Longrightarrow> take k (data (set_magic m h)) = take k (data h)"
    and "length (take ITEM_HDR_LEN (drop (unat (readpos h)) (data (set_magic m h)))) = ITEM_HDR_LEN"
    and "length (take ITEM_HDR_LEN (drop (unat (readpos h)) (data h))) = ITEM_HDR_LEN"
proof -
  let ?rp = "unat (readpos h)" and ?d = "data h" and ?e = "data (set_magic m h)"
  note sm = set_magic_facts [OF len room]
  have "drop 4 (take ITEM_HDR_LEN (drop ?rp ?e)) = take (ITEM_HDR_LEN - 4) (drop (?rp + 4) ?e)"
    by (simp add: drop_take add.commute)
  also have "\<dots> = take (ITEM_HDR_LEN - 4) (drop (?rp + 4) ?d)" by (simp only: sm(6))
  also have "\<dots> = drop 4 (take ITEM_HDR_LEN (drop ?rp ?d))"
    by (simp add: drop_take add.commute)
  finally show "drop 4 (take ITEM_HDR_LEN (drop ?rp ?e)) = drop 4 (take ITEM_HDR_LEN (drop ?rp ?d))" .
  have "drop (?rp + ITEM_HDR_LEN) ?e = drop (ITEM_HDR_LEN - 4) (drop (?rp + 4) ?e)"
    by (simp add: ITEM_HDR_LEN_def add.commute)
  also have "\<dots> = drop (ITEM_HDR_LEN - 4) (drop (?rp + 4) ?d)" by (simp only: sm(6))
  also have "\<dots> = drop (?rp + ITEM_HDR_LEN) ?d" by (simp add: ITEM_HDR_LEN_def add.commute)
  finally show "drop (?rp + ITEM_HDR_LEN) ?e = drop (?rp + ITEM_HDR_LEN) ?d" .
  show "take k ?e = take k ?d" if "k \<le> ?rp"
  proof -
    have "take k ?e = take k (take ?rp ?e)" using that by (simp add: min_def)
    also have "\<dots> = take k (take ?rp ?d)" by (simp only: sm(5))
    also have "\<dots> = take k ?d" using that by (simp add: min_def)
    finally show ?thesis .
  qed
  show "length (take ITEM_HDR_LEN (drop ?rp ?e)) = ITEM_HDR_LEN"
    using room sm(1) by simp
  show "length (take ITEM_HDR_LEN (drop ?rp ?d)) = ITEM_HDR_LEN"
    using room by simp
qed

lemma drop4_item:
  assumes "length hd1 = ITEM_HDR_LEN" and "length hd2 = ITEM_HDR_LEN"
    and "drop 4 hd1 = drop 4 hd2"
  shows "drop 4 (hd1 @ rest) = drop 4 (hd2 @ rest)"
    and "12 < length (hd1 @ rest)" and "12 < length (hd2 @ rest)"
  using assms by (simp_all add: ITEM_HDR_LEN_def)

lemma next_row_set_magic:
  assumes ok: "arena_ok h" and room: "\<not> no_room_for_header h" and len: "length m = 4"
    and fits: "unat (totallen_at h) \<le> unat (buffer_size h)"
    and lens: "0 \<le> sint (message_len (header_at h))" "0 \<le> sint (detail_len (header_at h))"
  shows "next_row (set_magic m h) c =
     map_sum id (\<lambda>(row, h', c'). (row, h'\<lparr>data := data (set_magic m h)\<rparr>, c')) (next_row h c)"
proof -
  let ?g = "set_magic m h"
  let ?rp = "unat (readpos h)" and ?bs = "unat (buffer_size h)" and ?n = "unat (totallen_at h)"
  note r = room_for_header [OF ok room]
  note sm = set_magic_facts [OF len r(2)]
  note sp = set_magic_parts [OF len r(2)]
  have ok2: "arena_ok ?g" using ok sm(1,3) by (simp add: arena_ok_def)
  have room2: "\<not> no_room_for_header ?g"
    using room sm(2,3) by (simp add: no_room_for_header_def)
  let ?hd = "take ITEM_HDR_LEN (drop ?rp (data h))"
  let ?hd2 = "take ITEM_HDR_LEN (drop ?rp (data ?g))"
  consider (long) "0x3fffffff < ?n" | (short) "?n < ITEM_HDR_LEN"
    | (one) "ITEM_HDR_LEN \<le> ?n" "?n \<le> 0x3fffffff" "?rp + ?n < ?bs"
    | (two) "ITEM_HDR_LEN \<le> ?n" "?n \<le> 0x3fffffff" "?bs \<le> ?rp + ?n"
    by linarith
  then show ?thesis
  proof cases
    case long
    then have "copy_item h c = Inl Invalid_alloc_size" "copy_item ?g c = Inl Invalid_alloc_size"
      using copy_item_too_long [OF ok room, of c] copy_item_too_long [OF ok2 room2, of c]
      by (simp_all add: sm(4))
    then show ?thesis by (simp add: next_row_def)
  next
    case short
    then have "copy_item h c = Inl Out_of_bounds" "copy_item ?g c = Inl Out_of_bounds"
      using copy_item_too_short [OF ok room, of c] copy_item_too_short [OF ok2 room2, of c]
      by (simp_all add: sm(4))
    then show ?thesis by (simp add: next_row_def)
  next
    case one
    let ?rest = "take (?n - ITEM_HDR_LEN) (drop (?rp + ITEM_HDR_LEN) (data h))"
    have c1: "copy_item h c = Inr (?hd @ ?rest, h\<lparr>readpos := readpos h + totallen_at h\<rparr>, c)"
      using ok room one by (rule copy_item_one_part)
    have "copy_item ?g c =
        Inr (take ITEM_HDR_LEN (drop (unat (readpos ?g)) (data ?g)) @
             take (unat (totallen_at ?g) - ITEM_HDR_LEN)
               (drop (unat (readpos ?g) + ITEM_HDR_LEN) (data ?g)),
             ?g\<lparr>readpos := readpos ?g + totallen_at ?g\<rparr>, c)"
      using ok2 room2 one by (intro copy_item_one_part) (simp_all add: sm(2,3,4))
    then have c2: "copy_item ?g c =
        Inr (?hd2 @ ?rest, ?g\<lparr>readpos := readpos h + totallen_at h\<rparr>, c)"
      by (simp only: sm(2,4) sp(2))
    note d = drop4_item [OF sp(4) sp(5) sp(1), of ?rest]
    have "form_row (?hd2 @ ?rest) (readpos h) = form_row (?hd @ ?rest) (readpos h)"
      using d lens by (intro form_row_cong) (simp_all only: header_at_copied [OF r(2)])
    with c1 c2 show ?thesis
      by (simp add: next_row_def sm(2) set_magic_def split: sum.splits)
  next
    case two
    let ?new = "?rp + ?n - ?bs"
    let ?rest = "take (?bs - ?rp - ITEM_HDR_LEN) (drop (?rp + ITEM_HDR_LEN) (data h)) @ take ?new (data h)"
    have new: "?new \<le> ?bs" "?new \<le> ?rp" using fits r(1) by simp_all
    have c1: "copy_item h c =
        Inr (?hd @ ?rest, h\<lparr>readpos := readpos h + totallen_at h - buffer_size h\<rparr>,
             c\<lparr>wraparound := False\<rparr>)"
      using copy_item_two_parts [OF ok room two, of c] new(1) by simp
    have "copy_item ?g c =
        Inr (take ITEM_HDR_LEN (drop (unat (readpos ?g)) (data ?g)) @
             take (unat (buffer_size ?g) - unat (readpos ?g) - ITEM_HDR_LEN)
               (drop (unat (readpos ?g) + ITEM_HDR_LEN) (data ?g)) @
             take (unat (readpos ?g) + unat (totallen_at ?g) - unat (buffer_size ?g)) (data ?g),
             ?g\<lparr>readpos := readpos ?g + totallen_at ?g - buffer_size ?g\<rparr>,
             c\<lparr>wraparound := False\<rparr>)"
      using copy_item_two_parts [OF ok2 room2, of c] two new(1) by (simp add: sm(2,3,4))
    then have c2: "copy_item ?g c =
        Inr (?hd2 @ ?rest, ?g\<lparr>readpos := readpos h + totallen_at h - buffer_size h\<rparr>,
             c\<lparr>wraparound := False\<rparr>)"
      by (simp only: sm(2,3,4) sp(2) sp(3) [OF new(2)])
    note d = drop4_item [OF sp(4) sp(5) sp(1), of ?rest]
    have "form_row (?hd2 @ ?rest) (readpos h) = form_row (?hd @ ?rest) (readpos h)"
      using d lens by (intro form_row_cong) (simp_all only: header_at_copied [OF r(2)])
    with c1 c2 show ?thesis
      by (simp add: next_row_def sm(2) set_magic_def split: sum.splits)
  qed
qed

text \<open>
  A length field of the header may be negative, and the pointer that walks the strings
  then steps back into the header: with \<^verbatim>\<open>message_len = -28\<close> the detail is read from
  the first byte of the block, and it is the bytes of the magic and of \<^verbatim>\<open>totallen\<close> up
  to the first NUL. The row of such a record depends on the bytes of its magic.
\<close>

lemma form_row_negative_message_len:
  "next_row arena_negative ctx_negative =
     Inr (\<lparr>level = 20, errno = 2, message = [0x68, 0x69],
           detail = Some [0xB5, 0x4A, 0x05, 0x06, 32], hint = None, position = 0\<rparr>,
          arena_negative\<lparr>readpos := 32\<rparr>, ctx_negative)"
  "next_row (set_magic [0, 0, 0, 0] arena_negative) ctx_negative =
     Inr (\<lparr>level = 20, errno = 2, message = [0x68, 0x69],
           detail = Some [], hint = None, position = 0\<rparr>,
          set_magic [0, 0, 0, 0] arena_negative\<lparr>readpos := 32\<rparr>, ctx_negative)"
  "sint (message_len (header_at arena_negative)) = - 28"
  by code_simp+

text \<open>
  C6 (as amended). The magic field is part of the header (\<^verbatim>\<open>CHECK_DATA\<close> is defined)
  and is copied with it, but the drain never compares it with \<^verbatim>\<open>PG_ITEM_MAGIC\<close>: in a
  well-formed store, for a record whose announced length is not more than
  \<open>buffer_size\<close> and whose \<^verbatim>\<open>message_len\<close> and \<^verbatim>\<open>detail_len\<close> are not negative,
  replacing the four bytes of the magic by any others changes neither the row, nor a
  fault, nor the read cursor and the flag that the step leaves; the call returns the same
  row.
\<close>

theorem drain_ignores_magic:
  assumes ok: "arena_ok h" and room: "\<not> no_room_for_header h" and len: "length m = 4"
    and fits: "unat (totallen_at h) \<le> unat (buffer_size h)"
    and lens: "0 \<le> sint (message_len (header_at h))" "0 \<le> sint (detail_len (header_at h))"
  shows "next_row (set_magic m h) c =
      map_sum id (\<lambda>(row, h', c'). (row, h'\<lparr>data := data (set_magic m h)\<rparr>, c')) (next_row h c) \<and>
    (loop_cond h c \<longrightarrow>
       get_logged_data (set_magic m h) (Some c) =
         Some (case next_row h c of
                 Inl e \<Rightarrow> Inl e
               | Inr (row, h', c') \<Rightarrow> Inr (Some row, h'\<lparr>data := data (set_magic m h)\<rparr>, c')))"
proof (intro conjI impI)
  show eq: "next_row (set_magic m h) c =
      map_sum id (\<lambda>(row, h', c'). (row, h'\<lparr>data := data (set_magic m h)\<rparr>, c')) (next_row h c)"
    using ok room len fits lens by (rule next_row_set_magic)
  assume lc: "loop_cond h c"
  have lc2: "loop_cond (set_magic m h) c" using lc by (simp add: loop_cond_def set_magic_def)
  have room2: "\<not> no_room_for_header (set_magic m h)"
    using room by (simp add: no_room_for_header_def set_magic_def)
  have "get_logged_data (set_magic m h) (Some c) = Some (emit (set_magic m h) c)"
    using lc2 room2 by (simp add: get_logged_data_eq loop_emit)
  then show "get_logged_data (set_magic m h) (Some c) =
         Some (case next_row h c of
                 Inl e \<Rightarrow> Inl e
               | Inr (row, h', c') \<Rightarrow> Inr (Some row, h'\<lparr>data := data (set_magic m h)\<rparr>, c'))"
    by (simp add: emit_def eq split: sum.splits prod.splits)
qed

lemma next_row_arena_two:
  "next_row arena_two ctx_two = Inr (sample_row 0, arena_two\<lparr>readpos := 32\<rparr>, ctx_two)"
  by code_simp

lemma loop_cond_arena_two: "loop_cond arena_two ctx_two"
  by code_simp

theorem drain_ignores_magic_witness:
  "arena_ok arena_two \<and> \<not> no_room_for_header arena_two \<and> length [0, 0, 0, 0 :: byte] = 4 \<and>
   unat (totallen_at arena_two) \<le> unat (buffer_size arena_two) \<and>
   0 \<le> sint (message_len (header_at arena_two)) \<and>
   0 \<le> sint (detail_len (header_at arena_two)) \<and>
   loop_cond arena_two ctx_two \<and>
   next_row (set_magic [0, 0, 0, 0] arena_two) ctx_two =
     Inr (sample_row 0, arena_two\<lparr>readpos := 32, data := data (set_magic [0, 0, 0, 0] arena_two)\<rparr>,
          ctx_two) \<and>
   get_logged_data (set_magic [0, 0, 0, 0] arena_two) (Some ctx_two) =
     Some (Inr (Some (sample_row 0),
                arena_two\<lparr>readpos := 32, data := data (set_magic [0, 0, 0, 0] arena_two)\<rparr>,
                ctx_two))"
proof -
  have l: "length [0, 0, 0, 0 :: byte] = 4" by simp
  have f: "unat (totallen_at arena_two) \<le> unat (buffer_size arena_two)"
    by (simp add: arena_two_facts)
  have n: "0 \<le> sint (message_len (header_at arena_two))"
    "0 \<le> sint (detail_len (header_at arena_two))"
    by code_simp+
  note w = drain_ignores_magic [OF arena_two_facts(1,2) l f n, of ctx_two]
  from w have 1: "next_row (set_magic [0, 0, 0, 0] arena_two) ctx_two =
     Inr (sample_row 0, arena_two\<lparr>readpos := 32, data := data (set_magic [0, 0, 0, 0] arena_two)\<rparr>,
          ctx_two)"
    by (simp add: next_row_arena_two)
  from w loop_cond_arena_two
  have 2: "get_logged_data (set_magic [0, 0, 0, 0] arena_two) (Some ctx_two) =
     Some (Inr (Some (sample_row 0),
                arena_two\<lparr>readpos := 32, data := data (set_magic [0, 0, 0, 0] arena_two)\<rparr>,
                ctx_two))"
    by (simp add: next_row_arena_two)
  from arena_two_facts(1,2) l f n loop_cond_arena_two 1 2 show ?thesis by (intro conjI)
qed

text \<open>
  C6 as stated fails: a record whose magic is 0 instead of \<^verbatim>\<open>0x06054AB5\<close> does not end
  the session with an error; the call returns its row like any other.
\<close>

theorem drain_ignores_magic_counterexample:
  "magic (header_at arena_bad_magic) = 0 \<and>
   PG_ITEM_MAGIC \<noteq> 0 \<and>
   get_logged_data arena_bad_magic None =
     Some (Inr (Some (sample_row 0), arena_bad_magic\<lparr>hdr_lock := True, readpos := 32\<rparr>, ctx_two))"
  by code_simp

end
